theory Spec2Isabelle
  imports Main "HOL-Library.Sublist"
begin

section \<open>JavaScript strings\<close>

text \<open>
  The build script works on JavaScript strings. A string is modelled as a \<open>string\<close>
  (a list of \<open>char\<close>); each \<open>char\<close> stands for one UTF-16 code unit in the range
  0..255, so the white space of a regular expression (\<open>\s\<close>, also what \<open>trim\<close> removes)
  is the seven code units below and the line terminators are line feed and carriage
  return. \<open>s.startsWith(p)\<close> is \<open>prefix p s\<close>.
\<close>

definition is_space :: "char \<Rightarrow> bool" where
  "is_space c = (c \<in> set [CHR 0x09, CHR 0x0A, CHR 0x0B, CHR 0x0C, CHR 0x0D, CHR 0x20, CHR 0xA0])"

definition is_line_terminator :: "char \<Rightarrow> bool" where
  "is_line_terminator c = (c = CHR 0x0A \<or> c = CHR 0x0D)"

text \<open>The two quote characters a regular expression class \<open>["']\<close> accepts.\<close>

definition is_quote :: "char \<Rightarrow> bool" where
  "is_quote c = (c = CHR 0x22 \<or> c = CHR 0x27)"

text \<open>\<open>s.indexOf(pat)\<close>: the index of the first occurrence, \<open>None\<close> for JavaScript's -1.\<close>

fun index_of :: "string \<Rightarrow> string \<Rightarrow> nat option" where
  "index_of pat [] = (if pat = [] then Some 0 else None)"
| "index_of pat (c # cs) =
     (if prefix pat (c # cs) then Some 0 else map_option Suc (index_of pat cs))"

text \<open>\<open>s.includes(pat)\<close>.\<close>

definition includes_str :: "string \<Rightarrow> string \<Rightarrow> bool" where
  "includes_str s pat = (index_of pat s \<noteq> None)"

text \<open>\<open>s.trim()\<close>.\<close>

definition trim :: "string \<Rightarrow> string" where
  "trim s = rev (dropWhile is_space (rev (dropWhile is_space s)))"

text \<open>
  The replacement text of \<open>String.prototype.replace\<close> when the replacement is a string
  (ECMAScript GetSubstitution) and the pattern has no capture group: \<open>$$\<close> is a dollar
  sign, \<open>$&\<close> the matched text, \<open>$`\<close> the text before the match, \<open>$'\<close> the text after
  it; every other character, a dollar sign before a digit included, stands for itself.
\<close>

fun get_substitution :: "string \<Rightarrow> string \<Rightarrow> string \<Rightarrow> string \<Rightarrow> string" where
  "get_substitution matched preceding following (c # d # t) =
     (if c = CHR ''$'' \<and> d = CHR ''$'' then CHR ''$'' # get_substitution matched preceding following t
      else if c = CHR ''$'' \<and> d = CHR ''&'' then matched @ get_substitution matched preceding following t
      else if c = CHR ''$'' \<and> d = CHR 0x60 then preceding @ get_substitution matched preceding following t
      else if c = CHR ''$'' \<and> d = CHR 0x27 then following @ get_substitution matched preceding following t
      else c # get_substitution matched preceding following (d # t))"
| "get_substitution matched preceding following [c] = [c]"
| "get_substitution matched preceding following [] = []"

text \<open>
  \<open>s.replace(pat, rep)\<close> with a string pattern: the first occurrence only; a string
  without the pattern is returned as it is.
\<close>

definition js_replace :: "string \<Rightarrow> string \<Rightarrow> string \<Rightarrow> string" where
  "js_replace s pat rep =
     (case index_of pat s of
        None \<Rightarrow> s
      | Some i \<Rightarrow>
          take i s
          @ get_substitution pat (take i s) (drop (i + length pat) s) rep
          @ drop (i + length pat) s)"

text \<open>
  \<open>s.replace(/pat/g, rep)\<close> for a regular expression that matches exactly the literal
  text \<open>pat\<close> (\<open>/{{LABEL}}/g\<close>, \<open>/;}/g\<close>, \<open>/\/public\//g\<close>): the matches are found from left
  to right and do not overlap. \<open>passed\<close> is the text already passed, which \<open>$`\<close> refers to.
\<close>

function replace_all_from :: "string \<Rightarrow> string \<Rightarrow> string \<Rightarrow> string \<Rightarrow> string" where
  "replace_all_from pat rep passed [] = []"
| "replace_all_from pat rep passed (c # cs) =
     (if pat \<noteq> [] \<and> prefix pat (c # cs)
      then get_substitution pat passed (drop (length pat) (c # cs)) rep
           @ replace_all_from pat rep (passed @ pat) (drop (length pat) (c # cs))
      else c # replace_all_from pat rep (passed @ [c]) cs)"
  by pat_completeness auto
termination
  by (relation "measure (\<lambda>(pat, rep, passed, s). length s)") auto

definition js_replace_all :: "string \<Rightarrow> string \<Rightarrow> string \<Rightarrow> string" where
  "js_replace_all s pat rep = replace_all_from pat rep [] s"

section \<open>Paths (Node's path module on POSIX)\<close>

fun split_on :: "char \<Rightarrow> string \<Rightarrow> string list" where
  "split_on sep [] = [[]]"
| "split_on sep (c # cs) =
     (if c = sep then [] # split_on sep cs
      else (case split_on sep cs of
              [] \<Rightarrow> [[c]]
            | seg # segs \<Rightarrow> (c # seg) # segs))"

fun join_with :: "string \<Rightarrow> string list \<Rightarrow> string" where
  "join_with sep [] = []"
| "join_with sep [x] = x"
| "join_with sep (x # y # zs) = x @ sep @ join_with sep (y # zs)"

text \<open>
  \<open>normalizeString\<close>: empty segments and \<open>.\<close> are dropped; \<open>..\<close> removes the segment
  before it, and is kept only where climbing above the start is allowed. \<open>acc\<close> is the
  stack of segments kept so far, the last one first.
\<close>

fun normalize_segments :: "bool \<Rightarrow> string list \<Rightarrow> string list \<Rightarrow> string list" where
  "normalize_segments climb acc [] = rev acc"
| "normalize_segments climb acc (seg # segs) =
     (if seg = [] \<or> seg = ''.'' then normalize_segments climb acc segs
      else if seg = ''..'' then
        (case acc of
           [] \<Rightarrow> normalize_segments climb (if climb then [''..''] else []) segs
         | prev # below \<Rightarrow>
             if prev = ''..'' then normalize_segments climb (if climb then seg # acc else acc) segs
             else normalize_segments climb below segs)
      else normalize_segments climb (seg # acc) segs)"

definition is_absolute :: "string \<Rightarrow> bool" where
  "is_absolute p = prefix ''/'' p"

definition path_normalize :: "string \<Rightarrow> string" where
  "path_normalize p =
     (if p = [] then ''.''
      else
        let trailing = (last p = CHR ''/'');
            q = join_with ''/'' (normalize_segments (\<not> is_absolute p) [] (split_on CHR ''/'' p))
        in if q = [] then (if is_absolute p then ''/'' else if trailing then ''./'' else ''.'')
           else (if is_absolute p then ''/'' else []) @ q @ (if trailing then ''/'' else []))"

text \<open>\<open>path.join(...parts)\<close>: the non-empty parts, joined by a separator and normalized.\<close>

definition path_join :: "string list \<Rightarrow> string" where
  "path_join parts =
     (if filter (\<lambda>p. p \<noteq> []) parts = [] then ''.''
      else path_normalize (join_with ''/'' (filter (\<lambda>p. p \<noteq> []) parts)))"

text \<open>
  \<open>path.dirname(p)\<close>: the text before the last separator that follows a segment,
  trailing separators ignored.
\<close>

definition path_dirname :: "string \<Rightarrow> string" where
  "path_dirname p =
     (if p = [] then ''.''
      else
        let r = dropWhile (\<lambda>c. c \<noteq> CHR ''/'') (dropWhile (\<lambda>c. c = CHR ''/'') (rev (tl p)))
        in if r = [] then (if is_absolute p then ''/'' else ''.'')
           else if is_absolute p \<and> length r = 1 then ''//''
           else take (length r) p)"

text \<open>
  \<open>path.resolve(dir, p)\<close> in the working directory \<open>cwd\<close> (an absolute path): the
  arguments are taken from the right until one is absolute.
\<close>

definition path_resolve :: "string \<Rightarrow> string \<Rightarrow> string \<Rightarrow> string" where
  "path_resolve cwd dir p =
     (let joined =
            (if is_absolute p then p @ ''/''
             else if is_absolute dir then dir @ ''/'' @ p @ ''/''
             else cwd @ ''/'' @ (if dir = [] then [] else dir @ ''/'') @ p @ ''/'')
      in ''/'' @ join_with ''/'' (normalize_segments False [] (split_on CHR ''/'' joined)))"

text \<open>
  \<open>path.extname(name)\<close> for the name of a directory entry: the text from the last dot
  on, empty when the name has no dot or nothing before its last dot.
\<close>

definition path_extname :: "string \<Rightarrow> string" where
  "path_extname name =
     (if CHR ''.'' \<notin> set name \<or> name = ''..'' then []
      else
        let ext = CHR ''.'' # rev (takeWhile (\<lambda>c. c \<noteq> CHR ''.'') (rev name))
        in if length ext = length name then [] else ext)"

section \<open>The file system\<close>

text \<open>
  A path names a file with its content, a directory, or nothing.
  \<open>fs.existsSync(p)\<close> is \<open>fs p \<noteq> None\<close>; \<open>fs.readFileSync(p, "utf8")\<close> returns the
  content of a file and throws for every other path.
\<close>

datatype fs_node = File string | Directory

type_synonym filesystem = "string \<Rightarrow> fs_node option"

datatype io_error = ReadError string

definition readFileSync :: "filesystem \<Rightarrow> string \<Rightarrow> io_error + string" where
  "readFileSync fs p = (case fs p of Some (File content) \<Rightarrow> Inr content | _ \<Rightarrow> Inl (ReadError p))"

section \<open>CSS bundling and minification\<close>

subsection \<open>minifyCSS\<close>

text \<open>\<open>.replace(/\/\*[\s\S]*?\*\//g, "")\<close>: a comment ends at the first \<open>*/\<close> after its \<open>/*\<close>.\<close>

function remove_css_comments :: "string \<Rightarrow> string" where
  "remove_css_comments [] = []"
| "remove_css_comments (c # cs) =
     (if prefix ''/*'' (c # cs) then
        (case index_of ''*/'' (drop 2 (c # cs)) of
           Some i \<Rightarrow> remove_css_comments (drop (i + 4) (c # cs))
         | None \<Rightarrow> c # remove_css_comments cs)
      else c # remove_css_comments cs)"
  by pat_completeness auto
termination
  by (relation "measure length") auto

text \<open>\<open>.replace(/\s+/g, " ")\<close>.\<close>

function collapse_space :: "string \<Rightarrow> string" where
  "collapse_space [] = []"
| "collapse_space (c # cs) =
     (if is_space c then CHR '' '' # collapse_space (dropWhile is_space cs)
      else c # collapse_space cs)"
  by pat_completeness auto
termination
  by (relation "measure length") (auto simp: less_Suc_eq_le length_dropWhile_le)

definition is_css_symbol :: "char \<Rightarrow> bool" where
  "is_css_symbol c = (c \<in> set ''{}:;,'')"

text \<open>
  \<open>.replace(/\s*([{}:;,])\s*/g, "$1")\<close>: a symbol with the white space on both sides of
  it is replaced by the symbol, which is what \<open>$1\<close> stands for.
\<close>

function tighten_symbols :: "string \<Rightarrow> string" where
  "tighten_symbols [] = []"
| "tighten_symbols (c # cs) =
     (case dropWhile is_space (c # cs) of
        [] \<Rightarrow> c # tighten_symbols cs
      | d # ds \<Rightarrow>
          if is_css_symbol d then d # tighten_symbols (dropWhile is_space ds)
          else c # tighten_symbols cs)"
  by pat_completeness auto
termination
proof (relation "measure length", goal_cases)
  case 1
  show ?case by simp
next
  case (2 c cs)
  show ?case by simp
next
  case (3 c cs d ds)
  have "length (d # ds) \<le> length (c # cs)"
    using length_dropWhile_le [of is_space "c # cs"] 3(1) by simp
  moreover have "length (dropWhile is_space ds) \<le> length ds"
    by (rule length_dropWhile_le)
  ultimately show ?case by simp
next
  case (4 c cs d ds)
  show ?case by simp
qed

definition minifyCSS :: "string \<Rightarrow> string" where
  "minifyCSS css =
     trim (js_replace_all (tighten_symbols (collapse_space (remove_css_comments css))) '';}'' ''}'')"

subsection \<open>inlineCSS\<close>

text \<open>
  \<open>/@import\s+["'](.+?)["'];/g\<close>. After the opening quote the path is matched lazily:
  it is the shortest non-empty text without a line terminator that is followed by a
  quote and a semicolon.
\<close>

fun import_path :: "string \<Rightarrow> string \<Rightarrow> string option" where
  "import_path acc (c # d # r) =
     (if acc \<noteq> [] \<and> is_quote c \<and> d = CHR '';'' then Some acc
      else if is_line_terminator c then None
      else import_path (acc @ [c]) (d # r))"
| "import_path acc [c] = None"
| "import_path acc [] = None"

text \<open>
  A match at the start of \<open>s\<close>: the import path and the index of the semicolon that
  ends the match.
\<close>

definition match_import :: "string \<Rightarrow> (string \<times> nat) option" where
  "match_import s =
     (if prefix ''@import'' s \<and> takeWhile is_space (drop 7 s) \<noteq> [] then
        (case dropWhile is_space (drop 7 s) of
           [] \<Rightarrow> None
         | q # r \<Rightarrow>
             if is_quote q then
               (case import_path [] r of
                  None \<Rightarrow> None
                | Some p \<Rightarrow> Some (p, 9 + length (takeWhile is_space (drop 7 s)) + length p))
             else None)
      else None)"

text \<open>
  The content of a CSS file as \<open>replace\<close> sees it: the text between the matches and the
  import paths, in order. \<open>acc\<close> is the text since the last match.
\<close>

datatype css_token = Text string | Import string

function css_tokens :: "string \<Rightarrow> string \<Rightarrow> css_token list" where
  "css_tokens acc [] = [Text acc]"
| "css_tokens acc (c # cs) =
     (case match_import (c # cs) of
        Some (p, e) \<Rightarrow> Text acc # Import p # css_tokens [] (drop (Suc e) (c # cs))
      | None \<Rightarrow> css_tokens (acc @ [c]) cs)"
  by pat_completeness auto
termination
  by (relation "measure (\<lambda>(acc, s). length s)") auto

text \<open>
  \<open>inlineCSS(filePath, seen)\<close>. \<open>seen\<close> is the JavaScript \<open>Set\<close> shared by the whole
  bundle, kept in insertion order; \<open>warns\<close> collects the paths \<open>console.warn\<close> reports
  as missing. The result of \<open>content.replace\<close> is kept as its pieces, each with the
  file it was read from; the returned string is their concatenation (\<open>bundle_text\<close>).
  The recursion is bounded by a fuel argument: \<open>None\<close> means the fuel ran out.
\<close>

type_synonym piece = "string \<times> string"

type_synonym inline_result = "(io_error + piece list \<times> string list \<times> string list) option"

fun inlineCSS :: "string \<Rightarrow> filesystem \<Rightarrow> nat \<Rightarrow> string \<Rightarrow> string list \<times> string list \<Rightarrow> inline_result"
and inline_imports ::
  "string \<Rightarrow> filesystem \<Rightarrow> nat \<Rightarrow> string \<Rightarrow> css_token list \<Rightarrow> string list \<times> string list \<Rightarrow> inline_result"
where
  "inlineCSS cwd fs 0 filePath st = None"
| "inlineCSS cwd fs (Suc n) filePath (seen, warns) =
     (if filePath \<in> set seen then Some (Inr ([], seen, warns))
      else
        (case readFileSync fs filePath of
           Inl err \<Rightarrow> Some (Inl err)
         | Inr content \<Rightarrow>
             inline_imports cwd fs n filePath (css_tokens [] content) (seen @ [filePath], warns)))"
| "inline_imports cwd fs n filePath [] (seen, warns) = Some (Inr ([], seen, warns))"
| "inline_imports cwd fs n filePath (Text t # ts) st =
     (case inline_imports cwd fs n filePath ts st of
        Some (Inr (ps, st')) \<Rightarrow> Some (Inr ((filePath, t) # ps, st'))
      | r \<Rightarrow> r)"
| "inline_imports cwd fs n filePath (Import importPath # ts) (seen, warns) =
     (let resolvedPath = path_resolve cwd (path_dirname filePath) importPath in
      if fs resolvedPath = None
      then inline_imports cwd fs n filePath ts (seen, warns @ [resolvedPath])
      else
        (case inlineCSS cwd fs n resolvedPath (seen, warns) of
           Some (Inr (ps, st')) \<Rightarrow>
             (case inline_imports cwd fs n filePath ts st' of
                Some (Inr (qs, st'')) \<Rightarrow> Some (Inr (ps @ qs, st''))
              | r \<Rightarrow> r)
         | r \<Rightarrow> r))"

definition bundle_text :: "piece list \<Rightarrow> string" where
  "bundle_text ps = concat (map snd ps)"

subsection \<open>Content hash and the bundle file\<close>

text \<open>
  \<open>getContentHash\<close>: the first eight characters of the hexadecimal MD5 digest. The
  digest is Node's \<open>crypto\<close> module; it is the parameter \<open>md5\<close>.
\<close>

definition getContentHash :: "(string \<Rightarrow> string) \<Rightarrow> string \<Rightarrow> string" where
  "getContentHash md5 content = take 8 (md5 content)"

text \<open>
  \<open>compileCSSBundleWithHash\<close>: the name of the bundle file, the content written to
  it and the warnings; \<open>assets_dir\<close> stands for the constant \<open>ASSETS_DIR\<close>.
\<close>

definition outputFileName :: "(string \<Rightarrow> string) \<Rightarrow> string \<Rightarrow> string" where
  "outputFileName md5 bundledCss = ''bundle.'' @ getContentHash md5 (minifyCSS bundledCss) @ ''.css''"

definition compileCSSBundleWithHash ::
  "(string \<Rightarrow> string) \<Rightarrow> string \<Rightarrow> filesystem \<Rightarrow> nat \<Rightarrow> string \<Rightarrow> string
     \<Rightarrow> (io_error + string \<times> string \<times> string list) option" where
  "compileCSSBundleWithHash md5 cwd fs fuel assets_dir inputCssFile =
     (case inlineCSS cwd fs fuel (path_join [assets_dir, ''css'', inputCssFile]) ([], []) of
        None \<Rightarrow> None
      | Some (Inl err) \<Rightarrow> Some (Inl err)
      | Some (Inr (ps, seen, warns)) \<Rightarrow>
          Some (Inr (outputFileName md5 (bundle_text ps), minifyCSS (bundle_text ps), warns)))"

section \<open>Injecting the site copy into the partials\<close>

text \<open>
  \<open>copy.json\<close> and the partials, with the fields the script reads. A field of the JSON
  document is a string.
\<close>

record nav_item =
  label :: string
  link :: string

record titled =
  title :: string
  description :: string

record copy =
  header_nav :: "nav_item list"
  hero_title :: string
  hero_description :: string
  hero_cta :: string
  invoices_label :: string
  invoices_amounts :: "string list"
  about_title :: string
  about_description :: string
  about_steps :: "titled list"
  services_title :: string
  services_description :: string
  services_list :: "titled list"
  contact_title :: string
  contact_description :: string

record partials =
  head :: string
  headerHTML :: string
  heroSection :: string
  invoices :: string
  aboutSection :: string
  steps :: string
  servicesSection :: string
  services :: string
  contactSection :: string
  contactForm :: string
  footerHTML :: string

text \<open>One round of \<open>copyJSON.header.nav.forEach\<close>.\<close>

definition inject_nav_item :: "string \<Rightarrow> nav_item \<Rightarrow> string" where
  "inject_nav_item html item =
     js_replace (js_replace html ''{{LABEL}}'' (label item)) ''{{DESTINATION}}'' (link item)"

text \<open>One round of \<open>copyJSON.invoices.amounts.forEach\<close>.\<close>

definition inject_amount :: "string \<Rightarrow> string \<Rightarrow> string" where
  "inject_amount html amount = js_replace html ''{{AMOUNT}}'' amount"

text \<open>One round of the loops over \<open>about.steps\<close> and \<open>services.list\<close>.\<close>

definition inject_titled :: "string \<Rightarrow> titled \<Rightarrow> string" where
  "inject_titled html item =
     js_replace (js_replace html ''{{TITLE}}'' (title item)) ''{{DESCRIPTION}}'' (description item)"

definition injectDynamicContent :: "copy \<Rightarrow> partials \<Rightarrow> partials" where
  "injectDynamicContent copyJSON p0 =
     (let p1 = p0\<lparr>headerHTML := foldl inject_nav_item (headerHTML p0) (header_nav copyJSON)\<rparr>;
          p2 = p1\<lparr>heroSection :=
                 js_replace
                   (js_replace
                      (js_replace (heroSection p1) ''{{TITLE}}'' (hero_title copyJSON))
                      ''{{DESCRIPTION}}'' (hero_description copyJSON))
                   ''{{CTA}}'' (hero_cta copyJSON)\<rparr>;
          p3 = p2\<lparr>invoices := js_replace_all (invoices p2) ''{{LABEL}}'' (invoices_label copyJSON)\<rparr>;
          p4 = p3\<lparr>invoices := foldl inject_amount (invoices p3) (invoices_amounts copyJSON)\<rparr>;
          p5 = p4\<lparr>heroSection := js_replace (heroSection p4) ''<!-- INVOICES -->'' (invoices p4)\<rparr>;
          p6 = p5\<lparr>aboutSection :=
                 js_replace
                   (js_replace (aboutSection p5) ''{{TITLE}}'' (about_title copyJSON))
                   ''{{DESCRIPTION}}'' (about_description copyJSON)\<rparr>;
          p7 = p6\<lparr>steps := foldl inject_titled (steps p6) (about_steps copyJSON)\<rparr>;
          p8 = p7\<lparr>aboutSection := js_replace (aboutSection p7) ''<!-- STEPS -->'' (steps p7)\<rparr>;
          p9 = p8\<lparr>servicesSection :=
                 js_replace
                   (js_replace (servicesSection p8) ''{{TITLE}}'' (services_title copyJSON))
                   ''{{DESCRIPTION}}'' (services_description copyJSON)\<rparr>;
          p10 = p9\<lparr>services := foldl inject_titled (services p9) (services_list copyJSON)\<rparr>;
          p11 = p10\<lparr>servicesSection :=
                  js_replace (servicesSection p10) ''<!-- SERVICES -->'' (services p10)\<rparr>
      in p11\<lparr>contactSection :=
               js_replace
                 (js_replace
                    (js_replace (contactSection p11) ''{{TITLE}}'' (contact_title copyJSON))
                    ''{{DESCRIPTION}}'' (contact_description copyJSON))
                 ''<!-- CONTACT FORM -->'' (contactForm p11)\<rparr>)"

section \<open>HTML minification and page assembly\<close>

text \<open>\<open>.replace(/<!--[\s\S]*?-->/g, "")\<close>: a comment ends at the first \<open>-->\<close> after its \<open><!--\<close>.\<close>

function remove_html_comments :: "string \<Rightarrow> string" where
  "remove_html_comments [] = []"
| "remove_html_comments (c # cs) =
     (if prefix ''<!--'' (c # cs) then
        (case index_of ''-->'' (drop 4 (c # cs)) of
           Some i \<Rightarrow> remove_html_comments (drop (i + 7) (c # cs))
         | None \<Rightarrow> c # remove_html_comments cs)
      else c # remove_html_comments cs)"
  by pat_completeness auto
termination
  by (relation "measure length") auto

text \<open>\<open>.replace(/>\s+</g, "><")\<close>.\<close>

function squeeze_tags :: "string \<Rightarrow> string" where
  "squeeze_tags [] = []"
| "squeeze_tags (c # cs) =
     (if c = CHR ''>'' \<and> takeWhile is_space cs \<noteq> [] \<and> prefix ''<'' (dropWhile is_space cs)
      then CHR ''>'' # CHR ''<'' # squeeze_tags (tl (dropWhile is_space cs))
      else c # squeeze_tags cs)"
  by pat_completeness auto
termination
proof (relation "measure length", goal_cases)
  case 1
  show ?case by simp
next
  case (2 c cs)
  have "length (dropWhile is_space cs) \<le> length cs"
    by (rule length_dropWhile_le)
  then show ?case by simp
next
  case (3 c cs)
  show ?case by simp
qed

text \<open>\<open>.replace(/\s{2,}/g, " ")\<close>.\<close>

function collapse_runs :: "string \<Rightarrow> string" where
  "collapse_runs [] = []"
| "collapse_runs (c # cs) =
     (if is_space c \<and> takeWhile is_space cs \<noteq> []
      then CHR '' '' # collapse_runs (dropWhile is_space cs)
      else c # collapse_runs cs)"
  by pat_completeness auto
termination
  by (relation "measure length") (auto simp: less_Suc_eq_le length_dropWhile_le)

text \<open>
  The index of the last line terminator in the white space that \<open>cs\<close> starts with.
\<close>

definition last_terminator :: "string \<Rightarrow> nat option" where
  "last_terminator cs =
     (case filter (\<lambda>k. is_line_terminator (cs ! k)) (rev [0..<length (takeWhile is_space cs)]) of
        [] \<Rightarrow> None
      | k # ks \<Rightarrow> Some k)"

text \<open>
  \<open>.replace(/^\s+|\s+$/gm, "")\<close>. With the \<open>m\<close> flag \<open>^\<close> holds at the start of the text
  and after a line terminator, \<open>$\<close> at the end of the text and before a line
  terminator. \<open>bol\<close> says that \<open>^\<close> holds at the current position. White space at the
  start of a line is removed whole; elsewhere \<open>\s+$\<close> takes the white space up to the
  end of the text, or else up to the last line terminator of the run, and matches
  nothing when the run has no line terminator after its first character.
\<close>

function trim_lines :: "bool \<Rightarrow> string \<Rightarrow> string" where
  "trim_lines bol [] = []"
| "trim_lines bol (c # cs) =
     (if is_space c then
        (if bol then
           trim_lines (is_line_terminator (last (takeWhile is_space (c # cs))))
             (dropWhile is_space (c # cs))
         else if dropWhile is_space cs = [] then []
         else
           (case last_terminator cs of
              Some j \<Rightarrow> trim_lines (is_line_terminator ((c # cs) ! j)) (drop j cs)
            | None \<Rightarrow> c # trim_lines (is_line_terminator c) cs))
      else c # trim_lines False cs)"
  by pat_completeness auto
termination
  by (relation "measure (\<lambda>(bol, s). length s)")
    (auto simp: less_Suc_eq_le length_dropWhile_le)

definition minifyHTML :: "string \<Rightarrow> string" where
  "minifyHTML html =
     trim (filter (\<lambda>c. c \<noteq> CHR 0x0A)
       (trim_lines True (collapse_runs (squeeze_tags (remove_html_comments html)))))"

text \<open>
  Build step 4 for one page shell: the marker comments are replaced by the partials,
  the CSS link is rewritten (\<open>/\/css\/bundle\.css/\<close> has no \<open>g\<close> flag: the first match
  only), \<open>/public/\<close> is replaced by \<open>/\<close> everywhere, and the result is minified.
\<close>

definition compose_page :: "partials \<Rightarrow> string \<Rightarrow> string \<Rightarrow> string" where
  "compose_page p hashedCssFile html =
     js_replace (js_replace (js_replace (js_replace (js_replace (js_replace (js_replace (js_replace
       html ''<!-- HEAD -->'' (head p))
       ''/css/bundle.css'' (''/css/'' @ hashedCssFile))
       ''<!-- HEADER -->'' (headerHTML p))
       ''<!-- HERO SECTION -->'' (heroSection p))
       ''<!-- ABOUT SECTION -->'' (aboutSection p))
       ''<!-- SERVICES SECTION -->'' (servicesSection p))
       ''<!-- CONTACT SECTION -->'' (contactSection p))
       ''<!-- FOOTER -->'' (footerHTML p)"

definition strip_public :: "string \<Rightarrow> string" where
  "strip_public html = js_replace_all html ''/public/'' ''/''"

definition build_page :: "partials \<Rightarrow> string \<Rightarrow> string \<Rightarrow> string" where
  "build_page p hashedCssFile html = minifyHTML (strip_public (compose_page p hashedCssFile html))"

section \<open>Link validation\<close>

text \<open>
  \<open>/(?:href|src)=["']([^"':#?][^"']*)["']/g\<close>: a match at the start of \<open>s\<close>, as the
  captured link and the index of the closing quote.
\<close>

definition match_link :: "string \<Rightarrow> (string \<times> nat) option" where
  "match_link s =
     (let k = (if prefix ''href='' s then 5 else if prefix ''src='' s then 4 else 0) in
      if k = 0 then None
      else
        (case drop k s of
           q # f # r \<Rightarrow>
             if is_quote q \<and> \<not> is_quote f \<and> f \<notin> set '':#?'' \<and> dropWhile (\<lambda>c. \<not> is_quote c) r \<noteq> []
             then Some (f # takeWhile (\<lambda>c. \<not> is_quote c) r,
                        k + 2 + length (takeWhile (\<lambda>c. \<not> is_quote c) r))
             else None
         | _ \<Rightarrow> None))"

text \<open>The captured links of all matches, as the \<open>exec\<close> loop finds them.\<close>

function scan_links :: "string \<Rightarrow> string list" where
  "scan_links [] = []"
| "scan_links (c # cs) =
     (case match_link (c # cs) of
        Some (l, e) \<Rightarrow> l # scan_links (drop (Suc e) (c # cs))
      | None \<Rightarrow> scan_links cs)"
  by pat_completeness auto
termination
  by (relation "measure length") auto

datatype log_line = BrokenLink string string | AllLinksValid

text \<open>\<open>link.split("?")[0].split("#")[0]\<close>, with \<open>index.html\<close> after a final slash.\<close>

definition target_path :: "string \<Rightarrow> string" where
  "target_path l =
     (let t = takeWhile (\<lambda>c. c \<noteq> CHR ''#'') (takeWhile (\<lambda>c. c \<noteq> CHR ''?'') l)
      in if t \<noteq> [] \<and> last t = CHR ''/'' then t @ ''index.html'' else t)"

definition is_external :: "string \<Rightarrow> bool" where
  "is_external l = (prefix ''http'' l \<or> prefix ''//'' l)"

text \<open>
  The body of the \<open>while\<close> loop over the matches of one file. \<open>return\<close> leaves the
  callback of \<open>htmlFiles.forEach\<close>: the remaining links of the file are not looked at.
\<close>

fun check_links :: "string \<Rightarrow> filesystem \<Rightarrow> string \<Rightarrow> string list \<Rightarrow> log_line list" where
  "check_links publicDir fs file [] = []"
| "check_links publicDir fs file (l # ls) =
     (if is_external l then []
      else
        (if fs (path_join [publicDir, target_path l]) = None then [BrokenLink file l] else [])
        @ check_links publicDir fs file ls)"

text \<open>
  The callback of \<open>htmlFiles.forEach\<close>, run over the files in order; a file that cannot
  be read throws.
\<close>

fun check_files :: "string \<Rightarrow> filesystem \<Rightarrow> string list \<Rightarrow> io_error + log_line list" where
  "check_files publicDir fs [] = Inr []"
| "check_files publicDir fs (file # files) =
     (case readFileSync fs (path_join [publicDir, file]) of
        Inl err \<Rightarrow> Inl err
      | Inr content \<Rightarrow>
          (case check_files publicDir fs files of
             Inl err \<Rightarrow> Inl err
           | Inr logs \<Rightarrow> Inr (check_links publicDir fs file (scan_links content) @ logs)))"

text \<open>
  \<open>validateLinks(publicDir)\<close>; \<open>entries\<close> is what \<open>fs.readdirSync(publicDir)\<close> returns.
  The result is what is written to the console.
\<close>

definition validateLinks :: "string \<Rightarrow> filesystem \<Rightarrow> string list \<Rightarrow> io_error + log_line list" where
  "validateLinks publicDir fs entries =
     (case check_files publicDir fs (filter (\<lambda>f. path_extname f = ''.html'') entries) of
        Inl err \<Rightarrow> Inl err
      | Inr logs \<Rightarrow> Inr (if logs = [] then [AllLinksValid] else logs))"

text \<open>The record of partials with every fragment empty, for concrete runs.\<close>

definition empty_partials :: partials where
  "empty_partials =
     \<lparr>head = [], headerHTML = [], heroSection = [], invoices = [], aboutSection = [],
      steps = [], servicesSection = [], services = [], contactSection = [], contactForm = [],
      footerHTML = []\<rparr>"

text \<open>
  Predicates the properties below are stated with. \<open>no_space_run s\<close>: no two white
  space characters stand next to each other in \<open>s\<close>.
\<close>

fun no_space_run :: "string \<Rightarrow> bool" where
  "no_space_run (a # b # r) = (\<not> (is_space a \<and> is_space b) \<and> no_space_run (b # r))"
| "no_space_run [a] = True"
| "no_space_run [] = True"

text \<open>\<open>starts_nonspace s\<close>: \<open>s\<close> is empty or starts with a character that is not white space.\<close>

fun starts_nonspace :: "string \<Rightarrow> bool" where
  "starts_nonspace [] = True"
| "starts_nonspace (c # cs) = (\<not> is_space c)"

text \<open>\<open>ws_deleted s t\<close>: \<open>t\<close> is \<open>s\<close> with some white space characters left out.\<close>

inductive ws_deleted :: "string \<Rightarrow> string \<Rightarrow> bool" where
  nil: "ws_deleted [] []"
| keep: "ws_deleted s t \<Longrightarrow> ws_deleted (c # s) (c # t)"
| skip: "is_space c \<Longrightarrow> ws_deleted s t \<Longrightarrow> ws_deleted (c # s) t"

text \<open>
  \<open>adjacent_ok R s\<close>: every two characters that stand next to each other in \<open>s\<close>
  satisfy \<open>R\<close>. \<open>css_tight s\<close>: a white space character of \<open>s\<close> has no white space
  and no CSS symbol next to it.
\<close>

fun adjacent_ok :: "(char \<Rightarrow> char \<Rightarrow> bool) \<Rightarrow> string \<Rightarrow> bool" where
  "adjacent_ok R (a # b # r) = (R a b \<and> adjacent_ok R (b # r))"
| "adjacent_ok R [a] = True"
| "adjacent_ok R [] = True"

definition css_pair_ok :: "char \<Rightarrow> char \<Rightarrow> bool" where
  "css_pair_ok a b =
     (\<not> (is_space a \<and> is_space b) \<and> \<not> (is_space a \<and> is_css_symbol b)
      \<and> \<not> (is_css_symbol a \<and> is_space b))"

definition css_tight :: "string \<Rightarrow> bool" where
  "css_tight s = adjacent_ok css_pair_ok s"

text \<open>
  Notions the properties of the bundler are stated with. \<open>texts ts\<close>: the texts of
  the token list \<open>ts\<close>, which is what is left of a file when its import statements are
  taken out. \<open>pieces_of f ps\<close>: the pieces of \<open>ps\<close> that were read from the file \<open>f\<close>.
  \<open>first_occurrences xs\<close>: \<open>xs\<close> without the repetitions of an element after its first
  occurrence.
\<close>

fun texts :: "css_token list \<Rightarrow> string list" where
  "texts [] = []"
| "texts (Text t # ts) = t # texts ts"
| "texts (Import p # ts) = texts ts"

definition pieces_of :: "string \<Rightarrow> piece list \<Rightarrow> string list" where
  "pieces_of f ps = map snd (filter (\<lambda>p. fst p = f) ps)"


text \<open>
  The import graph: \<open>import_targets cwd fs f ts\<close> are the resolved paths of the imports
  in \<open>ts\<close> that exist, in their order; \<open>imports_of cwd fs f\<close> are those of the file \<open>f\<close>.
\<close>

fun import_targets :: "string \<Rightarrow> filesystem \<Rightarrow> string \<Rightarrow> css_token list \<Rightarrow> string list" where
  "import_targets cwd fs f [] = []"
| "import_targets cwd fs f (Text t # ts) = import_targets cwd fs f ts"
| "import_targets cwd fs f (Import p # ts) =
     (if fs (path_resolve cwd (path_dirname f) p) = None then import_targets cwd fs f ts
      else path_resolve cwd (path_dirname f) p # import_targets cwd fs f ts)"

definition imports_of :: "string \<Rightarrow> filesystem \<Rightarrow> string \<Rightarrow> string list" where
  "imports_of cwd fs f =
     (case fs f of Some (File content) \<Rightarrow> import_targets cwd fs f (css_tokens [] content) | _ \<Rightarrow> [])"


text \<open>
  A depth-first walk that writes down what it meets. Every node has a list of items, each
  a piece of text or a reference to a node. The walk goes through the items of a node in
  their order: a piece is written down with the node it belongs to; at a reference to a
  node not visited so far the walk goes through that node first, then goes on; a
  reference to a visited node is passed over. The result is the pieces in the order in
  which they were met and the nodes in the order of their first visit; the fuel bounds the
  depth.
\<close>

datatype ('t, 'a) item = Piece 't | Node 'a




text \<open>The result of a run without its warnings: the pieces and the seen paths, or the error.\<close>

definition without_warnings :: "inline_result \<Rightarrow> (io_error + piece list \<times> string list) option" where
  "without_warnings r = map_option (map_sum id (\<lambda>(ps, seen, warns). (ps, seen))) r"

text \<open>Example file systems: \<open>import_line p\<close> is the statement \<open>@import "p";\<close>.\<close>

definition import_line :: "string \<Rightarrow> string" where
  "import_line p = ''@import '' @ [CHR 0x22] @ p @ [CHR 0x22] @ '';''"


definition fs_cycle :: filesystem where
  "fs_cycle = map_of
     [(''/src/css/a.css'', File (''a1{}'' @ import_line ''b.css'' @ ''a2{}'')),
      (''/src/css/b.css'', File (''b1{}'' @ import_line ''a.css'' @ ''b2{}''))]"

definition fs_missing :: filesystem where
  "fs_missing = map_of
     [(''/src/css/main.css'', File (''a{}'' @ import_line ''nope.css'' @ ''b{}''))]"

section \<open>Partials as sequences of markers and text\<close>

text \<open>
  A partial seen as a sequence of chunks: literal text, and placeholder markers
  \<open>{{NAME}}\<close>. \<open>render\<close> gives the text of the partial back. \<open>brace_ok s\<close>: every opening
  brace of \<open>s\<close> is followed, in \<open>s\<close>, by a character that is not an opening brace (no
  \<open>{{\<close> in \<open>s\<close>, and \<open>s\<close> does not end with \<open>{\<close>). A template is well formed when its
  literal chunks are so and the names have no brace at all, so that the markers of the
  text are exactly the \<open>Mark\<close> chunks.
\<close>

datatype chunk = Lit string | Mark string

definition marker :: "string \<Rightarrow> string" where
  "marker name = ''{{'' @ name @ ''}}''"

fun render :: "chunk list \<Rightarrow> string" where
  "render [] = []"
| "render (Lit s # cs) = s @ render cs"
| "render (Mark k # cs) = marker k @ render cs"

fun brace_ok :: "string \<Rightarrow> bool" where
  "brace_ok (c # d # t) = (\<not> (c = CHR ''{'' \<and> d = CHR ''{'') \<and> brace_ok (d # t))"
| "brace_ok [c] = (c \<noteq> CHR ''{'')"
| "brace_ok [] = True"

definition name_ok :: "string \<Rightarrow> bool" where
  "name_ok k = (CHR ''{'' \<notin> set k \<and> CHR ''}'' \<notin> set k)"

fun template_ok :: "chunk list \<Rightarrow> bool" where
  "template_ok [] = True"
| "template_ok (Lit s # cs) = (brace_ok s \<and> template_ok cs)"
| "template_ok (Mark k # cs) = (name_ok k \<and> template_ok cs)"

text \<open>
  \<open>pattern_free v\<close>: \<open>v\<close> has none of the four patterns of a replacement string, that is,
  no \<open>$\<close> directly followed by \<open>$\<close>, \<open>&\<close>, a backtick or a single quote. Every other
  \<open>$\<close>, as in \<open>$1,250.00\<close>, is allowed.
\<close>

fun pattern_free :: "string \<Rightarrow> bool" where
  "pattern_free (c # d # t) =
     (\<not> (c = CHR ''$'' \<and> (d = CHR ''$'' \<or> d = CHR ''&'' \<or> d = CHR 0x60 \<or> d = CHR 0x27))
      \<and> pattern_free (d # t))"
| "pattern_free [c] = True"
| "pattern_free [] = True"

text \<open>A value that has no pattern and cannot form a marker.\<close>

definition value_ok :: "string \<Rightarrow> bool" where
  "value_ok v = (brace_ok v \<and> pattern_free v)"

text \<open>
  \<open>fill_first\<close> puts a value in place of the first marker of a name, \<open>fill\<close> the values of a
  list, one after the other, in place of the successive markers of a name, \<open>fill_all\<close> one
  value in place of every marker of a name. \<open>marks\<close> counts the markers of a name.
\<close>

fun fill_first :: "string \<Rightarrow> string \<Rightarrow> chunk list \<Rightarrow> chunk list" where
  "fill_first m v [] = []"
| "fill_first m v (Lit s # cs) = Lit s # fill_first m v cs"
| "fill_first m v (Mark k # cs) = (if k = m then Lit v # cs else Mark k # fill_first m v cs)"

fun fill :: "string \<Rightarrow> string list \<Rightarrow> chunk list \<Rightarrow> chunk list" where
  "fill m vs [] = []"
| "fill m vs (Lit s # cs) = Lit s # fill m vs cs"
| "fill m vs (Mark k # cs) =
     (if k = m then (case vs of [] \<Rightarrow> Mark k # cs | v # vs' \<Rightarrow> Lit v # fill m vs' cs)
      else Mark k # fill m vs cs)"

fun fill_all :: "string \<Rightarrow> string \<Rightarrow> chunk list \<Rightarrow> chunk list" where
  "fill_all m v [] = []"
| "fill_all m v (Lit s # cs) = Lit s # fill_all m v cs"
| "fill_all m v (Mark k # cs) = (if k = m then Lit v else Mark k) # fill_all m v cs"

fun marks :: "string \<Rightarrow> chunk list \<Rightarrow> nat" where
  "marks m [] = 0"
| "marks m (Lit s # cs) = marks m cs"
| "marks m (Mark k # cs) = (if k = m then Suc (marks m cs) else marks m cs)"

text \<open>A site copy with every field empty, for concrete runs.\<close>

definition empty_copy :: copy where
  "empty_copy =
     \<lparr>header_nav = [], hero_title = [], hero_description = [], hero_cta = [],
      invoices_label = [], invoices_amounts = [], about_title = [], about_description = [],
      about_steps = [], services_title = [], services_description = [], services_list = [],
      contact_title = [], contact_description = []\<rparr>"








text \<open>
  A small site: a header with a style rule and two pairs of link markers for three links,
  and an invoice list with three amount markers for two amounts.
\<close>

definition demo_header :: "chunk list" where
  "demo_header =
     [Lit ''<style>a{b:c}</style>'',
      Lit ''<a href='', Mark ''DESTINATION'', Lit ''>'', Mark ''LABEL'', Lit ''</a>'',
      Lit ''<a href='', Mark ''DESTINATION'', Lit ''>'', Mark ''LABEL'', Lit ''</a>'']"

definition demo_invoices :: "chunk list" where
  "demo_invoices =
     [Lit ''<h2>'', Mark ''LABEL'', Lit ''</h2>'',
      Lit ''<li>'', Mark ''AMOUNT'', Lit ''</li>'',
      Lit ''<li>'', Mark ''AMOUNT'', Lit ''</li>'',
      Lit ''<li>'', Mark ''AMOUNT'', Lit ''</li>'']"

definition demo_partials :: partials where
  "demo_partials =
     empty_partials
       \<lparr>headerHTML := render demo_header,
        heroSection := ''<h1>{{TITLE}}</h1><!-- INVOICES -->'',
        invoices := render demo_invoices\<rparr>"

definition demo_copy :: copy where
  "demo_copy =
     empty_copy
       \<lparr>header_nav :=
          [\<lparr>label = ''Home'', link = ''/''\<rparr>,
           \<lparr>label = ''About'', link = ''/about''\<rparr>,
           \<lparr>label = ''Contact'', link = ''/contact''\<rparr>],
        hero_title := ''Fast payments'',
        invoices_label := ''Invoices'',
        invoices_amounts := [''$1,250.00'', ''20'']\<rparr>"

section \<open>Links of a page\<close>

text \<open>
  Notions the property of the link validator is stated with. \<open>attribute n v\<close> is the text
  \<open>n="v"\<close>. \<open>content_of fs p\<close> is the content of the file at \<open>p\<close>, \<open>is_file fs p\<close> holds
  when there is a file at \<open>p\<close>. \<open>link_missing publicDir fs l\<close>: nothing exists at the path
  the link \<open>l\<close> is resolved to.
\<close>

definition attribute :: "string \<Rightarrow> string \<Rightarrow> string" where
  "attribute n v = n @ ''='' @ [CHR 0x22] @ v @ [CHR 0x22]"






section \<open>Notions for the minified page\<close>

text \<open>
  \<open>ws_changed s t\<close>: \<open>t\<close> is \<open>s\<close> with some white space characters left out and some replaced
  by other white space characters. \<open>without_space s\<close>: \<open>s\<close> without its white space.
\<close>

inductive ws_changed :: "string \<Rightarrow> string \<Rightarrow> bool" where
  nil: "ws_changed [] []"
| keep: "ws_changed s t \<Longrightarrow> ws_changed (c # s) (c # t)"
| skip: "is_space c \<Longrightarrow> ws_changed s t \<Longrightarrow> ws_changed (c # s) t"
| swap: "is_space c \<Longrightarrow> is_space d \<Longrightarrow> ws_changed s t \<Longrightarrow> ws_changed (c # s) (d # t)"

definition without_space :: "string \<Rightarrow> string" where
  "without_space s = filter (\<lambda>c. \<not> is_space c) s"

text \<open>
  \<open>gap_after cs\<close>: \<open>cs\<close> starts with white space that is followed by \<open><\<close>. \<open>gap_free s\<close>: no
  \<open>>\<close> of \<open>s\<close> is followed by white space and then \<open><\<close>.
\<close>

definition gap_after :: "string \<Rightarrow> bool" where
  "gap_after cs = (takeWhile is_space cs \<noteq> [] \<and> prefix ''<'' (dropWhile is_space cs))"

fun gap_free :: "string \<Rightarrow> bool" where
  "gap_free [] = True"
| "gap_free (c # cs) = (\<not> (c = CHR ''>'' \<and> gap_after cs) \<and> gap_free cs)"

section \<open>Facts about the string operations\<close>

lemma includes_str_Nil: "includes_str [] pat = (pat = [])"
  by (simp add: includes_str_def)

lemma includes_str_Cons:
  "includes_str (c # cs) pat = (prefix pat (c # cs) \<or> includes_str cs pat)"
  by (simp add: includes_str_def)

lemma includes_str_append: "includes_str t pat \<Longrightarrow> includes_str (u @ t) pat"
  by (induction u) (auto simp: includes_str_Cons)

lemma includes_str_prefix: "prefix pat s \<Longrightarrow> includes_str s pat"
  by (cases s) (auto simp: includes_str_Cons includes_str_Nil)

lemma replace_all_from_match:
  "pat \<noteq> [] \<Longrightarrow>
   replace_all_from pat rep passed (pat @ t)
     = get_substitution pat passed t rep @ replace_all_from pat rep (passed @ pat) t"
  by (cases pat) auto

lemma replace_all_from_nomatch:
  "\<not> prefix pat (c # cs) \<Longrightarrow>
   replace_all_from pat rep passed (c # cs) = c # replace_all_from pat rep (passed @ [c]) cs"
  by simp

lemma includes_str_append_left: "includes_str s pat \<Longrightarrow> includes_str (s @ t) pat"
proof (induction s)
  case Nil
  then show ?case by (cases t) (simp_all add: includes_str_Nil includes_str_Cons)
next
  case (Cons c cs)
  from Cons.prems have "prefix pat (c # cs) \<or> includes_str cs pat"
    by (simp add: includes_str_Cons)
  then show ?case
  proof
    assume "prefix pat (c # cs)"
    then have "prefix pat ((c # cs) @ t)" by (rule prefix_prefix)
    then show ?thesis by (rule includes_str_prefix)
  next
    assume "includes_str cs pat"
    then have "includes_str (cs @ t) pat" by (rule Cons.IH)
    then show ?thesis by (simp add: includes_str_Cons)
  qed
qed

lemma includes_str_drop: "includes_str (drop n s) pat \<Longrightarrow> includes_str s pat"
  using includes_str_append [of "drop n s" pat "take n s"] by simp

lemma index_of_None: "(index_of pat s = None) = (\<not> includes_str s pat)"
  by (simp add: includes_str_def)

section \<open>The minified page\<close>

lemma no_space_run_Cons:
  "no_space_run (c # s) = ((\<not> is_space c \<or> starts_nonspace s) \<and> no_space_run s)"
  by (cases s) auto

lemma starts_nonspace_dropWhile: "starts_nonspace (dropWhile is_space s)"
  by (induction s) auto

lemma starts_nonspace_takeWhile:
  "takeWhile is_space s = [] \<Longrightarrow> starts_nonspace s"
  by (cases s) (auto split: if_splits)

lemma collapse_runs_starts:
  "starts_nonspace s \<Longrightarrow> starts_nonspace (collapse_runs s)"
  by (cases s) auto

lemma no_space_run_collapse_runs: "no_space_run (collapse_runs s)"
proof (induction s rule: collapse_runs.induct)
  case 1
  show ?case by simp
next
  case (2 c cs)
  show ?case
  proof (cases "is_space c \<and> takeWhile is_space cs \<noteq> []")
    case True
    with 2(1) have "no_space_run (collapse_runs (dropWhile is_space cs))" by blast
    moreover have "starts_nonspace (collapse_runs (dropWhile is_space cs))"
      by (rule collapse_runs_starts) (rule starts_nonspace_dropWhile)
    ultimately show ?thesis using True by (simp add: no_space_run_Cons)
  next
    case False
    with 2(2) have ih: "no_space_run (collapse_runs cs)" by blast
    have "\<not> is_space c \<or> starts_nonspace (collapse_runs cs)"
      using False collapse_runs_starts starts_nonspace_takeWhile by blast
    with ih False show ?thesis by (auto simp: no_space_run_Cons)
  qed
qed

lemma ws_deleted_refl: "ws_deleted s s"
  by (induction s) (auto intro: ws_deleted.intros)

lemma ws_deleted_append:
  "ws_deleted s t \<Longrightarrow> ws_deleted s' t' \<Longrightarrow> ws_deleted (s @ s') (t @ t')"
  by (induction rule: ws_deleted.induct) (auto intro: ws_deleted.intros)

lemma ws_deleted_spaces: "\<forall>c\<in>set d. is_space c \<Longrightarrow> ws_deleted s t \<Longrightarrow> ws_deleted (d @ s) t"
  by (induction d) (auto intro: ws_deleted.intros)

lemma ws_deleted_rev: "ws_deleted s t \<Longrightarrow> ws_deleted (rev s) (rev t)"
proof (induction rule: ws_deleted.induct)
  case nil
  show ?case by (simp add: ws_deleted.nil)
next
  case (keep s t c)
  then show ?case using ws_deleted_append [OF keep.IH ws_deleted_refl [of "[c]"]] by simp
next
  case (skip c s t)
  have "ws_deleted [c] []" using skip.hyps(1) by (auto intro: ws_deleted.intros)
  from ws_deleted_append [OF skip.IH this] show ?case by simp
qed

lemma ws_deleted_trans: "ws_deleted s t \<Longrightarrow> ws_deleted t u \<Longrightarrow> ws_deleted s u"
proof (induction arbitrary: u rule: ws_deleted.induct)
  case nil
  then show ?case by simp
next
  case (keep s t c)
  from keep.prems show ?case
  proof (cases rule: ws_deleted.cases)
    case (keep u')
    with keep.IH show ?thesis by (auto intro: ws_deleted.intros)
  next
    case skip
    with keep.IH show ?thesis by (auto intro: ws_deleted.intros)
  qed
next
  case (skip c s t)
  then show ?case by (auto intro: ws_deleted.intros)
qed

lemma ws_deleted_dropWhile: "ws_deleted s (dropWhile is_space s)"
  by (induction s) (auto intro: ws_deleted.intros ws_deleted_refl)

lemma ws_deleted_trim: "ws_deleted s (trim s)"
proof -
  have "ws_deleted (rev (dropWhile is_space s)) (dropWhile is_space (rev (dropWhile is_space s)))"
    by (rule ws_deleted_dropWhile)
  from ws_deleted_rev [OF this] have "ws_deleted (dropWhile is_space s) (trim s)"
    by (simp add: trim_def)
  with ws_deleted_dropWhile show ?thesis by (rule ws_deleted_trans)
qed

lemma ws_deleted_newlines: "ws_deleted s (filter (\<lambda>c. c \<noteq> CHR 0x0A) s)"
  by (induction s) (auto intro: ws_deleted.intros simp: is_space_def)

lemma last_terminator_less:
  "last_terminator cs = Some j \<Longrightarrow> j < length (takeWhile is_space cs)"
proof -
  assume a: "last_terminator cs = Some j"
  then obtain ks where
    "filter (\<lambda>k. is_line_terminator (cs ! k)) (rev [0..<length (takeWhile is_space cs)]) = j # ks"
    by (auto simp: last_terminator_def split: list.splits)
  then have "j \<in> set (filter (\<lambda>k. is_line_terminator (cs ! k)) (rev [0..<length (takeWhile is_space cs)]))"
    by simp
  then show ?thesis by simp
qed

lemma take_spaces:
  "j \<le> length (takeWhile is_space cs) \<Longrightarrow> \<forall>c\<in>set (take j cs). is_space c"
proof -
  assume a: "j \<le> length (takeWhile is_space cs)"
  have "take j cs = take j (take (length (takeWhile is_space cs)) cs)"
    using a by (simp add: min_def)
  also have "\<dots> = take j (takeWhile is_space cs)"
    by (simp add: takeWhile_eq_take [symmetric])
  finally have "set (take j cs) \<subseteq> set (takeWhile is_space cs)"
    by (simp add: set_take_subset)
  then show ?thesis by (auto dest: set_takeWhileD)
qed

lemma ws_deleted_trim_lines: "ws_deleted s (trim_lines bol s)"
proof (induction bol s rule: trim_lines.induct)
  case (1 bol)
  show ?case by (simp add: ws_deleted.nil)
next
  case (2 bol c cs)
  show ?case
  proof (cases "is_space c")
    case False
    with 2(4) show ?thesis by (auto intro: ws_deleted.intros)
  next
    case sp: True
    show ?thesis
    proof (cases bol)
      case True
      with sp 2(1) have ih: "ws_deleted (dropWhile is_space (c # cs))
          (trim_lines (is_line_terminator (last (takeWhile is_space (c # cs)))) (dropWhile is_space (c # cs)))"
        by blast
      have "ws_deleted (takeWhile is_space (c # cs) @ dropWhile is_space (c # cs))
          (trim_lines (is_line_terminator (last (takeWhile is_space (c # cs)))) (dropWhile is_space (c # cs)))"
        by (rule ws_deleted_spaces [OF _ ih]) (auto dest: set_takeWhileD)
      then show ?thesis using sp True by (simp del: takeWhile.simps dropWhile.simps)
    next
      case nb: False
      show ?thesis
      proof (cases "dropWhile is_space cs = []")
        case True
        then have "\<forall>x\<in>set cs. is_space x"
          by (simp add: dropWhile_eq_Nil_conv)
        with sp have "\<forall>x\<in>set (c # cs). is_space x" by simp
        from ws_deleted_spaces [OF this ws_deleted.nil] show ?thesis
          using sp nb True by simp
      next
        case ne: False
        show ?thesis
        proof (cases "last_terminator cs")
          case None
          with 2(2) sp nb ne have "ws_deleted cs (trim_lines (is_line_terminator c) cs)" by blast
          then show ?thesis using sp nb ne None by (auto intro: ws_deleted.intros)
        next
          case (Some j)
          with 2(3) sp nb ne have ih:
            "ws_deleted (drop j cs) (trim_lines (is_line_terminator ((c # cs) ! j)) (drop j cs))"
            by blast
          have "\<forall>x\<in>set (c # take j cs). is_space x"
            using sp take_spaces [of j cs] last_terminator_less [OF Some] by simp
          from ws_deleted_spaces [OF this ih] show ?thesis
            using sp nb ne Some by auto
        qed
      qed
    qed
  qed
qed

lemma ws_deleted_starts: "ws_deleted s t \<Longrightarrow> starts_nonspace s \<Longrightarrow> starts_nonspace t"
  by (induction rule: ws_deleted.induct) auto

lemma ws_deleted_no_space_run: "ws_deleted s t \<Longrightarrow> no_space_run s \<Longrightarrow> no_space_run t"
proof (induction rule: ws_deleted.induct)
  case nil
  show ?case by simp
next
  case (keep s t c)
  then show ?case using ws_deleted_starts [OF keep.hyps] by (auto simp: no_space_run_Cons)
next
  case (skip c s t)
  then show ?case by (simp add: no_space_run_Cons)
qed

subsection \<open>White space is all that the later passes change\<close>

lemma ws_deleted_changed: "ws_deleted s t \<Longrightarrow> ws_changed s t"
  by (induction rule: ws_deleted.induct) (auto intro: ws_changed.intros)

lemma ws_changed_spaces: "\<forall>c\<in>set d. is_space c \<Longrightarrow> ws_changed s t \<Longrightarrow> ws_changed (d @ s) t"
  by (induction d) (auto intro: ws_changed.intros)

lemma ws_changed_collapse_runs: "ws_changed s (collapse_runs s)"
proof (induction s rule: collapse_runs.induct)
  case 1
  show ?case by (simp add: ws_changed.nil)
next
  case (2 c cs)
  show ?case
  proof (cases "is_space c \<and> takeWhile is_space cs \<noteq> []")
    case True
    from 2(1) [OF True] have "ws_changed (dropWhile is_space cs) (collapse_runs (dropWhile is_space cs))" .
    then have "ws_changed (takeWhile is_space cs @ dropWhile is_space cs)
        (collapse_runs (dropWhile is_space cs))"
      by (rule ws_changed_spaces [rotated]) (auto dest: set_takeWhileD)
    then have "ws_changed cs (collapse_runs (dropWhile is_space cs))" by simp
    moreover have "is_space (CHR '' '')" by (simp add: is_space_def)
    ultimately have "ws_changed (c # cs) (CHR '' '' # collapse_runs (dropWhile is_space cs))"
      using True by (blast intro: ws_changed.swap)
    with True show ?thesis by simp
  next
    case False
    from 2(2) [OF False] have "ws_changed (c # cs) (c # collapse_runs cs)"
      by (rule ws_changed.keep)
    with False show ?thesis by auto
  qed
qed

lemma ws_deleted_squeeze_tags: "ws_deleted s (squeeze_tags s)"
proof (induction s rule: squeeze_tags.induct)
  case 1
  show ?case by (simp add: ws_deleted.nil)
next
  case (2 c cs)
  let ?m = "c = CHR ''>'' \<and> takeWhile is_space cs \<noteq> [] \<and> prefix ''<'' (dropWhile is_space cs)"
  show ?case
  proof (cases ?m)
    case True
    then obtain r where r: "dropWhile is_space cs = CHR ''<'' # r"
      by (cases "dropWhile is_space cs") auto
    from 2(1) [OF True] r have "ws_deleted r (squeeze_tags r)" by simp
    then have "ws_deleted (CHR ''<'' # r) (CHR ''<'' # squeeze_tags r)"
      by (rule ws_deleted.keep)
    then have "ws_deleted (takeWhile is_space cs @ CHR ''<'' # r) (CHR ''<'' # squeeze_tags r)"
      by (rule ws_deleted_spaces [rotated]) (auto dest: set_takeWhileD)
    then have "ws_deleted cs (CHR ''<'' # squeeze_tags r)"
      using r [symmetric] by simp
    then have "ws_deleted (c # cs) (c # CHR ''<'' # squeeze_tags r)"
      by (rule ws_deleted.keep)
    moreover from True r have "squeeze_tags (c # cs) = c # CHR ''<'' # squeeze_tags r"
      by simp
    ultimately show ?thesis by simp
  next
    case False
    from 2(2) [OF False] have "ws_deleted (c # cs) (c # squeeze_tags cs)"
      by (rule ws_deleted.keep)
    moreover from False have "squeeze_tags (c # cs) = c # squeeze_tags cs"
      by auto
    ultimately show ?thesis by simp
  qed
qed

lemma without_space_changed: "ws_changed s t \<Longrightarrow> without_space t = without_space s"
  by (induction rule: ws_changed.induct) (auto simp: without_space_def)

lemma without_space_minifyHTML:
  "without_space (minifyHTML html) = without_space (remove_html_comments html)"
proof -
  let ?a = "remove_html_comments html"
  let ?b = "squeeze_tags ?a"
  let ?c = "collapse_runs ?b"
  let ?d = "trim_lines True ?c"
  let ?e = "filter (\<lambda>c. c \<noteq> CHR 0x0A) ?d"
  have "without_space ?b = without_space ?a"
    by (rule without_space_changed [OF ws_deleted_changed [OF ws_deleted_squeeze_tags]])
  moreover have "without_space ?c = without_space ?b"
    by (rule without_space_changed [OF ws_changed_collapse_runs])
  moreover have "without_space ?d = without_space ?c"
    by (rule without_space_changed [OF ws_deleted_changed [OF ws_deleted_trim_lines]])
  moreover have "without_space ?e = without_space ?d"
    by (rule without_space_changed [OF ws_deleted_changed [OF ws_deleted_newlines]])
  moreover have "without_space (trim ?e) = without_space ?e"
    by (rule without_space_changed [OF ws_deleted_changed [OF ws_deleted_trim]])
  ultimately show ?thesis by (simp add: minifyHTML_def)
qed

lemma without_space_append: "without_space (a @ b) = without_space a @ without_space b"
  by (simp add: without_space_def)

lemma without_space_id: "\<forall>c\<in>set w. \<not> is_space c \<Longrightarrow> without_space w = w"
  by (simp add: without_space_def)

lemma includes_str_without_space:
  assumes "\<forall>c\<in>set w. \<not> is_space c"
  shows "includes_str s w \<Longrightarrow> includes_str (without_space s) w"
proof (induction s)
  case Nil
  then have "w = []" by (simp add: includes_str_Nil)
  then show ?case by (simp add: includes_str_Nil without_space_def)
next
  case (Cons c cs)
  from Cons.prems have "prefix w (c # cs) \<or> includes_str cs w"
    by (simp add: includes_str_Cons)
  then show ?case
  proof
    assume "prefix w (c # cs)"
    then obtain r where "c # cs = w @ r" by (auto simp: prefix_def)
    then have "without_space (c # cs) = w @ without_space r"
      by (simp add: without_space_append without_space_id [OF assms])
    then have "prefix w (without_space (c # cs))" by simp
    then show ?thesis by (rule includes_str_prefix)
  next
    assume "includes_str cs w"
    then have i: "includes_str (without_space cs) w" by (rule Cons.IH)
    have "without_space (c # cs) = (if is_space c then [] else [c]) @ without_space cs"
      by (simp add: without_space_def)
    with includes_str_append [OF i] show ?thesis by simp
  qed
qed

text \<open>
  White space apart, the minified page is the page without its comments: a text without
  white space that stands in the output stands in the page after the removal of the
  comments, when the white space there is left aside.
\<close>

lemma minifyHTML_includes:
  assumes "\<forall>c\<in>set w. \<not> is_space c" and "includes_str (minifyHTML html) w"
  shows "includes_str (without_space (remove_html_comments html)) w"
  using includes_str_without_space [OF assms] by (simp add: without_space_minifyHTML)

subsection \<open>White space between tags\<close>

lemma squeeze_tags_hd: "\<exists>r. squeeze_tags (c # cs) = c # r"
  by auto

lemma squeeze_tags_space: "is_space c \<Longrightarrow> squeeze_tags (c # cs) = c # squeeze_tags cs"
  by (auto simp: is_space_def)

lemma gap_after_Cons:
  "gap_after (c # cs) = (is_space c \<and> (gap_after cs \<or> prefix ''<'' cs))"
proof (cases "is_space c")
  case False
  then show ?thesis by (simp add: gap_after_def)
next
  case True
  show ?thesis
  proof (cases cs)
    case Nil
    with True show ?thesis by (simp add: gap_after_def)
  next
    case (Cons d ds)
    show ?thesis
    proof (cases "is_space d")
      case t: True
      then have "\<not> prefix ''<'' (d # ds)" by (auto simp: is_space_def)
      with True t Cons show ?thesis by (simp add: gap_after_def)
    next
      case False
      with True Cons show ?thesis by (simp add: gap_after_def)
    qed
  qed
qed

lemma prefix_lt_squeeze_tags: "prefix ''<'' (squeeze_tags s) = prefix ''<'' s"
proof (cases s)
  case Nil
  then show ?thesis by simp
next
  case (Cons c cs)
  from squeeze_tags_hd [of c cs] obtain r where "squeeze_tags (c # cs) = c # r" by blast
  with Cons show ?thesis by simp
qed

lemma gap_after_squeeze_tags: "gap_after (squeeze_tags s) = gap_after s"
proof (induction s)
  case Nil
  show ?case by simp
next
  case (Cons c cs)
  show ?case
  proof (cases "is_space c")
    case True
    with Cons show ?thesis
      by (simp only: squeeze_tags_space [OF True] gap_after_Cons prefix_lt_squeeze_tags)
  next
    case False
    from squeeze_tags_hd [of c cs] obtain r where "squeeze_tags (c # cs) = c # r" by blast
    with False show ?thesis by (simp add: gap_after_Cons)
  qed
qed

lemma gap_free_squeeze_tags: "gap_free (squeeze_tags s)"
proof (induction s rule: squeeze_tags.induct)
  case 1
  show ?case by simp
next
  case (2 c cs)
  let ?m = "c = CHR ''>'' \<and> takeWhile is_space cs \<noteq> [] \<and> prefix ''<'' (dropWhile is_space cs)"
  show ?case
  proof (cases ?m)
    case True
    then have eq: "squeeze_tags (c # cs)
        = CHR ''>'' # CHR ''<'' # squeeze_tags (tl (dropWhile is_space cs))"
      by simp
    have "\<not> gap_after (CHR ''<'' # squeeze_tags (tl (dropWhile is_space cs)))"
      by (simp add: gap_after_Cons is_space_def)
    with 2(1) [OF True] show ?thesis
      unfolding eq by simp
  next
    case False
    then have eq: "squeeze_tags (c # cs) = c # squeeze_tags cs"
      by auto
    from False have "\<not> (c = CHR ''>'' \<and> gap_after cs)"
      by (simp add: gap_after_def)
    with 2(2) [OF False] show ?thesis
      unfolding eq by (simp add: gap_after_squeeze_tags)
  qed
qed

lemma ws_changed_first:
  "ws_changed s t \<Longrightarrow> prefix ''<'' (dropWhile is_space t) \<Longrightarrow> prefix ''<'' (dropWhile is_space s)"
  by (induction rule: ws_changed.induct) (auto split: if_splits)

lemma ws_changed_starts_space:
  "ws_changed s t \<Longrightarrow> takeWhile is_space t \<noteq> [] \<Longrightarrow> takeWhile is_space s \<noteq> []"
  by (induction rule: ws_changed.induct) (auto split: if_splits)

lemma ws_changed_gap_after: "ws_changed s t \<Longrightarrow> gap_after t \<Longrightarrow> gap_after s"
  unfolding gap_after_def using ws_changed_first ws_changed_starts_space by blast

lemma ws_changed_gap_free: "ws_changed s t \<Longrightarrow> gap_free s \<Longrightarrow> gap_free t"
proof (induction rule: ws_changed.induct)
  case nil
  show ?case by simp
next
  case (keep s t c)
  with ws_changed_gap_after [OF keep(1)] show ?case by auto
next
  case (skip c s t)
  then show ?case by simp
next
  case (swap c d s t)
  then have "d \<noteq> CHR ''>''" by (auto simp: is_space_def)
  with swap show ?case by simp
qed

lemma gap_free_minifyHTML: "gap_free (minifyHTML html)"
proof -
  let ?a = "remove_html_comments html"
  let ?b = "squeeze_tags ?a"
  let ?c = "collapse_runs ?b"
  let ?d = "trim_lines True ?c"
  let ?e = "filter (\<lambda>c. c \<noteq> CHR 0x0A) ?d"
  have "gap_free ?b" by (rule gap_free_squeeze_tags)
  then have "gap_free ?c"
    by (rule ws_changed_gap_free [OF ws_changed_collapse_runs])
  then have "gap_free ?d"
    by (rule ws_changed_gap_free [OF ws_deleted_changed [OF ws_deleted_trim_lines]])
  then have "gap_free ?e"
    by (rule ws_changed_gap_free [OF ws_deleted_changed [OF ws_deleted_newlines]])
  then have "gap_free (trim ?e)"
    by (rule ws_changed_gap_free [OF ws_deleted_changed [OF ws_deleted_trim]])
  then show ?thesis by (simp add: minifyHTML_def)
qed

lemma ws_deleted_set: "ws_deleted s t \<Longrightarrow> set t \<subseteq> set s"
  by (induction rule: ws_deleted.induct) auto

lemma no_newline_minifyHTML: "CHR 0x0A \<notin> set (minifyHTML html)"
proof -
  let ?d = "trim_lines True (collapse_runs (squeeze_tags (remove_html_comments html)))"
  have "set (trim (filter (\<lambda>c. c \<noteq> CHR 0x0A) ?d)) \<subseteq> set (filter (\<lambda>c. c \<noteq> CHR 0x0A) ?d)"
    by (rule ws_deleted_set [OF ws_deleted_trim])
  then show ?thesis by (auto simp: minifyHTML_def)
qed

lemma trim_starts: "starts_nonspace (trim s)"
proof -
  have "ws_deleted (rev (dropWhile is_space s)) (dropWhile is_space (rev (dropWhile is_space s)))"
    by (rule ws_deleted_dropWhile)
  then have "ws_deleted (rev (rev (dropWhile is_space s))) (trim s)"
    unfolding trim_def by (rule ws_deleted_rev)
  then have "ws_deleted (dropWhile is_space s) (trim s)" by simp
  then show ?thesis
    by (rule ws_deleted_starts) (rule starts_nonspace_dropWhile)
qed

lemma trim_ends: "starts_nonspace (rev (trim s))"
  by (simp add: trim_def starts_nonspace_dropWhile)

subsection \<open>Comments\<close>

text \<open>The pass over the comments, step by step.\<close>

lemma remove_html_comments_other:
  assumes "\<not> prefix ''<!--'' (c # cs)"
  shows "remove_html_comments (c # cs) = c # remove_html_comments cs"
  using assms by (simp only: remove_html_comments.simps if_False)

lemma drop_add_append: "drop (n + length xs) (xs @ ys) = drop n ys"
  by simp

lemma remove_html_comments_closed:
  assumes "index_of ''-->'' t = Some i"
  shows "remove_html_comments (''<!--'' @ t) = remove_html_comments (drop (i + 3) t)"
proof -
  have "i + 7 = (i + 3) + length ''<!--''" by simp
  then have d: "drop (i + 7) (''<!--'' @ t) = drop (i + 3) t"
    by (simp only: drop_add_append)
  have e: "''<!--'' @ t = CHR ''<'' # (''!--'' @ t)" by simp
  have p: "prefix ''<!--'' (CHR ''<'' # (''!--'' @ t))" by simp
  have d4: "drop 4 (CHR ''<'' # (''!--'' @ t)) = t" by simp
  have "remove_html_comments (CHR ''<'' # (''!--'' @ t))
      = remove_html_comments (drop (i + 7) (CHR ''<'' # (''!--'' @ t)))"
    by (simp only: remove_html_comments.simps p if_True d4 assms option.case)
  then show ?thesis unfolding e [symmetric] d .
qed

lemma remove_html_comments_open:
  assumes "index_of ''-->'' t = None"
  shows "remove_html_comments (''<!--'' @ t) = ''<!--'' @ remove_html_comments t"
proof -
  have e: "''<!--'' @ t = CHR ''<'' # (''!--'' @ t)" by simp
  have p: "prefix ''<!--'' (CHR ''<'' # (''!--'' @ t))" by simp
  have d4: "drop 4 (CHR ''<'' # (''!--'' @ t)) = t" by simp
  have 1: "remove_html_comments (CHR ''<'' # (''!--'' @ t))
      = CHR ''<'' # remove_html_comments (''!--'' @ t)"
    by (simp only: remove_html_comments.simps p if_True d4 assms option.case)
  have 2: "remove_html_comments (''!--'' @ t) = ''!--'' @ remove_html_comments t"
    by simp
  show ?thesis unfolding e 1 2 by simp
qed

lemma remove_html_comments_no_opener:
  "\<not> includes_str s ''<!--'' \<Longrightarrow> remove_html_comments s = s"
proof (induction s)
  case Nil
  show ?case by simp
next
  case (Cons c cs)
  from Cons.prems have np: "\<not> prefix ''<!--'' (c # cs)" and "\<not> includes_str cs ''<!--''"
    unfolding includes_str_Cons by blast+
  with Cons.IH have "remove_html_comments cs = cs" by blast
  with remove_html_comments_other [OF np] show ?case by simp
qed

lemma remove_html_comments_no_closer:
  "\<not> includes_str s ''-->'' \<Longrightarrow> remove_html_comments s = s"
proof (induction s rule: length_induct)
  case (1 s)
  show ?case
  proof (cases "prefix ''<!--'' s")
    case True
    then obtain t where t: "s = ''<!--'' @ t" by (auto simp: prefix_def)
    have "includes_str t ''-->'' \<Longrightarrow> includes_str (''<!--'' @ t) ''-->''"
      by (rule includes_str_append)
    with 1(2) t have nt: "\<not> includes_str t ''-->''" by blast
    then have n: "index_of ''-->'' t = None" unfolding index_of_None .
    have "length t < length s" unfolding t by simp
    with 1(1) nt have "remove_html_comments t = t" by blast
    with remove_html_comments_open [OF n] show ?thesis unfolding t by (simp only:)
  next
    case False
    show ?thesis
    proof (cases s)
      case Nil
      then show ?thesis by simp
    next
      case (Cons c cs)
      from 1(2) Cons have "\<not> includes_str cs ''-->''" by (simp add: includes_str_Cons)
      moreover have "length cs < length s" unfolding Cons by simp
      ultimately have "remove_html_comments cs = cs" using 1(1) by blast
      with remove_html_comments_other [OF False [unfolded Cons]] show ?thesis
        unfolding Cons by (simp only:)
    qed
  qed
qed

lemma opener_not_across:
  assumes "\<not> includes_str (c # pre) ''<!--''"
  shows "\<not> prefix ''<!--'' (c # pre @ ''<!--'' @ rest)"
proof
  assume a: "prefix ''<!--'' (c # pre @ ''<!--'' @ rest)"
  from assms have n: "\<not> prefix ''<!--'' (c # pre)" by (simp add: includes_str_Cons)
  show False
  proof (cases pre)
    case Nil
    with a show False by auto
  next
    case p1: (Cons d pre1)
    show False
    proof (cases pre1)
      case Nil
      with a p1 show False by auto
    next
      case p2: (Cons e pre2)
      show False
      proof (cases pre2)
        case Nil
        with a p1 p2 show False by auto
      next
        case (Cons g pre3)
        with a p1 p2 have "prefix ''<!--'' (c # pre)" by auto
        with n show False by blast
      qed
    qed
  qed
qed

lemma closer_not_across:
  assumes "\<not> includes_str (c # body) ''-->''"
  shows "\<not> prefix ''-->'' (c # body @ ''-->'' @ rest)"
proof
  assume a: "prefix ''-->'' (c # body @ ''-->'' @ rest)"
  from assms have n: "\<not> prefix ''-->'' (c # body)" by (simp add: includes_str_Cons)
  show False
  proof (cases body)
    case Nil
    with a show False by auto
  next
    case p1: (Cons d body1)
    show False
    proof (cases body1)
      case Nil
      with a p1 show False by auto
    next
      case (Cons e body2)
      with a p1 have "prefix ''-->'' (c # body)" by auto
      with n show False by blast
    qed
  qed
qed

lemma index_of_closer:
  "\<not> includes_str body ''-->'' \<Longrightarrow> index_of ''-->'' (body @ ''-->'' @ rest) = Some (length body)"
proof (induction body)
  case Nil
  show ?case by simp
next
  case (Cons c body)
  from Cons.prems have "\<not> includes_str body ''-->''" by (simp add: includes_str_Cons)
  then have ih: "index_of ''-->'' (body @ ''-->'' @ rest) = Some (length body)"
    by (rule Cons.IH)
  note np = closer_not_across [OF Cons.prems, of rest]
  have x: "index_of ''-->'' (c # body @ ''-->'' @ rest)
      = map_option Suc (index_of ''-->'' (body @ ''-->'' @ rest))"
    by (simp only: index_of.simps np if_False)
  have "index_of ''-->'' ((c # body) @ ''-->'' @ rest) = map_option Suc (Some (length body))"
    unfolding append_Cons [of c body "''-->'' @ rest"] x ih ..
  then show ?case by simp
qed

lemma remove_html_comments_skip:
  "\<not> includes_str pre ''<!--'' \<Longrightarrow>
   remove_html_comments (pre @ ''<!--'' @ rest) = pre @ remove_html_comments (''<!--'' @ rest)"
proof (induction pre)
  case Nil
  show ?case by (simp only: append_Nil)
next
  case (Cons c pre)
  from Cons.prems have "\<not> includes_str pre ''<!--''" by (simp add: includes_str_Cons)
  then have ih: "remove_html_comments (pre @ ''<!--'' @ rest)
      = pre @ remove_html_comments (''<!--'' @ rest)"
    by (rule Cons.IH)
  note np = opener_not_across [OF Cons.prems, of rest]
  show ?case
    unfolding append_Cons [of c pre "''<!--'' @ rest"]
      append_Cons [of c pre "remove_html_comments (''<!--'' @ rest)"]
      remove_html_comments_other [OF np] ih ..
qed

lemma remove_html_comments_comment:
  assumes "\<not> includes_str pre ''<!--''" and "\<not> includes_str body ''-->''"
  shows "remove_html_comments (pre @ ''<!--'' @ body @ ''-->'' @ post)
    = pre @ remove_html_comments post"
proof -
  have "length body + 3 = 0 + length (body @ ''-->'')" by simp
  then have "drop (length body + 3) ((body @ ''-->'') @ post) = drop 0 post"
    by (simp only: drop_add_append)
  then have d: "drop (length body + 3) (body @ ''-->'' @ post) = post"
    by simp
  from remove_html_comments_closed [OF index_of_closer [OF assms(2), of post]]
  have "remove_html_comments (''<!--'' @ body @ ''-->'' @ post) = remove_html_comments post"
    unfolding d .
  with remove_html_comments_skip [OF assms(1), of "body @ ''-->'' @ post"] show ?thesis
    by (simp only:)
qed

lemma remove_html_comments_unclosed:
  assumes "\<not> includes_str pre ''<!--''" and "\<not> includes_str rest ''-->''"
  shows "remove_html_comments (pre @ ''<!--'' @ rest) = pre @ ''<!--'' @ rest"
proof -
  from assms(2) have n: "index_of ''-->'' rest = None"
    by (simp add: index_of_None)
  from remove_html_comments_open [OF n] remove_html_comments_no_closer [OF assms(2)]
  have "remove_html_comments (''<!--'' @ rest) = ''<!--'' @ rest"
    by (simp only:)
  with remove_html_comments_skip [OF assms(1), of rest] show ?thesis
    by (simp only:)
qed

subsection \<open>The minified output\<close>

text \<open>
  C7, as the claim states it, fails for the comments: removing a comment joins the text
  on both sides of it, and the joined text can be a comment again. The pass over the
  comments runs once.
\<close>

theorem comment_survives_minifyHTML: "minifyHTML ''<!-<!--x-->- y -->'' = ''<!-- y -->''"
  by code_simp

text \<open>
  C7, amended: for every HTML input the minified output has no two consecutive white
  space characters, no line feed, no white space at its start or at its end, and no white
  space between a \<open>>\<close> and a following \<open><\<close> (a line terminator that remains is itself
  white space, so it has none next to it). White space apart, the output is the input
  after the one pass over its comments; hence the output holds no \<open><!--\<close> when the text
  left by that pass, white space aside, spells none. The pass takes the comments from left
  to right, each from its \<open><!--\<close> to the first \<open>-->\<close> after it: a text without \<open><!--\<close> is
  left as it is; after a text without \<open><!--\<close>, a comment whose body has no \<open>-->\<close> is
  removed and the pass goes on behind it; a \<open><!--\<close> with no \<open>-->\<close> after it stays, with all
  that follows.
\<close>

theorem minifyHTML_output:
  "no_space_run (minifyHTML html)
   \<and> CHR 0x0A \<notin> set (minifyHTML html)
   \<and> starts_nonspace (minifyHTML html) \<and> starts_nonspace (rev (minifyHTML html))
   \<and> gap_free (minifyHTML html)
   \<and> without_space (minifyHTML html) = without_space (remove_html_comments html)
   \<and> (\<not> includes_str (without_space (remove_html_comments html)) ''<!--''
        \<longrightarrow> \<not> includes_str (minifyHTML html) ''<!--'')
   \<and> (\<forall>s. \<not> includes_str s ''<!--'' \<longrightarrow> remove_html_comments s = s)
   \<and> (\<forall>pre body post. \<not> includes_str pre ''<!--'' \<and> \<not> includes_str body ''-->'' \<longrightarrow>
         remove_html_comments (pre @ ''<!--'' @ body @ ''-->'' @ post)
           = pre @ remove_html_comments post)
   \<and> (\<forall>pre rest. \<not> includes_str pre ''<!--'' \<and> \<not> includes_str rest ''-->'' \<longrightarrow>
         remove_html_comments (pre @ ''<!--'' @ rest) = pre @ ''<!--'' @ rest)"
proof -
  let ?a = "collapse_runs (squeeze_tags (remove_html_comments html))"
  have "ws_deleted ?a (trim_lines True ?a)" by (rule ws_deleted_trim_lines)
  moreover have "ws_deleted (trim_lines True ?a) (filter (\<lambda>c. c \<noteq> CHR 0x0A) (trim_lines True ?a))"
    by (rule ws_deleted_newlines)
  moreover have "ws_deleted (filter (\<lambda>c. c \<noteq> CHR 0x0A) (trim_lines True ?a)) (minifyHTML html)"
    unfolding minifyHTML_def by (rule ws_deleted_trim)
  ultimately have "ws_deleted ?a (minifyHTML html)"
    by (blast intro: ws_deleted_trans)
  then have a: "no_space_run (minifyHTML html)"
    using no_space_run_collapse_runs by (rule ws_deleted_no_space_run)
  have b: "CHR 0x0A \<notin> set (minifyHTML html)" by (rule no_newline_minifyHTML)
  have c1: "starts_nonspace (minifyHTML html)" unfolding minifyHTML_def by (rule trim_starts)
  have c2: "starts_nonspace (rev (minifyHTML html))" unfolding minifyHTML_def by (rule trim_ends)
  have d: "gap_free (minifyHTML html)" by (rule gap_free_minifyHTML)
  have e: "without_space (minifyHTML html) = without_space (remove_html_comments html)"
    by (rule without_space_minifyHTML)
  have w: "\<forall>c\<in>set ''<!--''. \<not> is_space c"
    by (simp add: is_space_def)
  have f: "\<not> includes_str (without_space (remove_html_comments html)) ''<!--''
        \<longrightarrow> \<not> includes_str (minifyHTML html) ''<!--''"
    using minifyHTML_includes [OF w] by blast
  have g: "\<forall>s. \<not> includes_str s ''<!--'' \<longrightarrow> remove_html_comments s = s"
    using remove_html_comments_no_opener by blast
  have h: "\<forall>pre body post. \<not> includes_str pre ''<!--'' \<and> \<not> includes_str body ''-->'' \<longrightarrow>
         remove_html_comments (pre @ ''<!--'' @ body @ ''-->'' @ post)
           = pre @ remove_html_comments post"
    using remove_html_comments_comment by blast
  have i: "\<forall>pre rest. \<not> includes_str pre ''<!--'' \<and> \<not> includes_str rest ''-->'' \<longrightarrow>
         remove_html_comments (pre @ ''<!--'' @ rest) = pre @ ''<!--'' @ rest"
    using remove_html_comments_unclosed by blast
  from a b c1 c2 d e f g h i show ?thesis by (intro conjI)
qed

theorem minifyHTML_output_witness:
  "minifyHTML (''<p>  a   b </p>   '' @ [CHR 0x0A] @ ''  <!-- note --><b> x</b>  '')
     = ''<p> a b </p><b> x</b>''
   \<and> no_space_run (minifyHTML (''<p>  a   b </p>   '' @ [CHR 0x0A] @ ''  <!-- note --><b> x</b>  ''))
   \<and> \<not> includes_str
         (minifyHTML (''<p>  a   b </p>   '' @ [CHR 0x0A] @ ''  <!-- note --><b> x</b>  ''))
         ''<!--''
   \<and> remove_html_comments (''<p>'' @ ''<!--'' @ '' note '' @ ''-->'' @ ''<b>'')
       = ''<p>'' @ remove_html_comments ''<b>''
   \<and> remove_html_comments (''<p>'' @ ''<!--'' @ '' note'') = ''<p>'' @ ''<!--'' @ '' note''
   \<and> remove_html_comments ''<p><b>'' = ''<p><b>''"
proof -
  note r = minifyHTML_output [of "''<p>  a   b </p>   '' @ [CHR 0x0A] @ ''  <!-- note --><b> x</b>  ''"]
  have c1: "minifyHTML (''<p>  a   b </p>   '' @ [CHR 0x0A] @ ''  <!-- note --><b> x</b>  '')
     = ''<p> a b </p><b> x</b>''"
    by code_simp
  from r have c2: "no_space_run
      (minifyHTML (''<p>  a   b </p>   '' @ [CHR 0x0A] @ ''  <!-- note --><b> x</b>  ''))"
    by (elim conjE)
  have h3: "\<not> includes_str (without_space (remove_html_comments
      (''<p>  a   b </p>   '' @ [CHR 0x0A] @ ''  <!-- note --><b> x</b>  ''))) ''<!--''"
    by code_simp
  from r have "\<not> includes_str (without_space (remove_html_comments
      (''<p>  a   b </p>   '' @ [CHR 0x0A] @ ''  <!-- note --><b> x</b>  ''))) ''<!--''
    \<longrightarrow> \<not> includes_str
         (minifyHTML (''<p>  a   b </p>   '' @ [CHR 0x0A] @ ''  <!-- note --><b> x</b>  ''))
         ''<!--''"
    by (elim conjE)
  from this h3 have c3: "\<not> includes_str
         (minifyHTML (''<p>  a   b </p>   '' @ [CHR 0x0A] @ ''  <!-- note --><b> x</b>  ''))
         ''<!--''"
    by (rule mp)
  have h4: "\<not> includes_str ''<p>'' ''<!--'' \<and> \<not> includes_str '' note '' ''-->''"
    by code_simp
  from r have "\<forall>pre body post. \<not> includes_str pre ''<!--'' \<and> \<not> includes_str body ''-->'' \<longrightarrow>
         remove_html_comments (pre @ ''<!--'' @ body @ ''-->'' @ post)
           = pre @ remove_html_comments post"
    by (elim conjE)
  from this [rule_format, OF h4]
  have c4: "remove_html_comments (''<p>'' @ ''<!--'' @ '' note '' @ ''-->'' @ ''<b>'')
       = ''<p>'' @ remove_html_comments ''<b>''" .
  have h5: "\<not> includes_str ''<p>'' ''<!--'' \<and> \<not> includes_str '' note'' ''-->''"
    by code_simp
  from r have "\<forall>pre rest. \<not> includes_str pre ''<!--'' \<and> \<not> includes_str rest ''-->'' \<longrightarrow>
         remove_html_comments (pre @ ''<!--'' @ rest) = pre @ ''<!--'' @ rest"
    by (elim conjE)
  from this [rule_format, OF h5]
  have c5: "remove_html_comments (''<p>'' @ ''<!--'' @ '' note'') = ''<p>'' @ ''<!--'' @ '' note''" .
  have h6: "\<not> includes_str ''<p><b>'' ''<!--''"
    by code_simp
  from r have "\<forall>s. \<not> includes_str s ''<!--'' \<longrightarrow> remove_html_comments s = s"
    by (elim conjE)
  from this [rule_format, OF h6]
  have c6: "remove_html_comments ''<p><b>'' = ''<p><b>''" .
  from c1 c2 c3 c4 c5 c6 show ?thesis by (intro conjI)
qed

section \<open>CSS minification\<close>



lemma symbol_not_space: "is_css_symbol c \<Longrightarrow> \<not> is_space c"
  by (auto simp: is_css_symbol_def is_space_def)

lemma remove_css_comments_id: "\<not> includes_str s ''/*'' \<Longrightarrow> remove_css_comments s = s"
proof (induction s)
  case Nil
  show ?case by simp
next
  case (Cons c cs)
  from Cons.prems have np: "\<not> prefix ''/*'' (c # cs)" and "\<not> includes_str cs ''/*''"
    unfolding includes_str_Cons by blast+
  with Cons.IH have "remove_css_comments cs = cs" by blast
  with np show ?case by (subst remove_css_comments.simps) (simp only: if_False)
qed

lemma replace_all_from_id:
  "\<not> includes_str s pat \<Longrightarrow> replace_all_from pat rep passed s = s"
proof (induction s arbitrary: passed)
  case Nil
  show ?case by simp
next
  case (Cons c cs)
  from Cons.prems have np: "\<not> prefix pat (c # cs)" and "\<not> includes_str cs pat"
    unfolding includes_str_Cons by blast+
  with Cons.IH have "replace_all_from pat rep (passed @ [c]) cs = cs" by blast
  with replace_all_from_nomatch [OF np] show ?case by simp
qed

lemma adjacent_ok_Cons:
  "adjacent_ok R (c # s) = ((case s of [] \<Rightarrow> True | b # r \<Rightarrow> R c b) \<and> adjacent_ok R s)"
  by (cases s) auto

lemma adjacent_ok_mono:
  "adjacent_ok R s \<Longrightarrow> (\<And>a b. R a b \<Longrightarrow> S a b) \<Longrightarrow> adjacent_ok S s"
  by (induction R s rule: adjacent_ok.induct) auto

lemma adjacent_ok_append_left: "adjacent_ok R (u @ v) \<Longrightarrow> adjacent_ok R u"
proof (induction u)
  case Nil
  show ?case by simp
next
  case (Cons c u)
  then show ?case by (cases u) (auto simp: adjacent_ok_Cons)
qed

lemma adjacent_ok_append_right: "adjacent_ok R (u @ v) \<Longrightarrow> adjacent_ok R v"
  by (induction u) (auto simp: adjacent_ok_Cons)

lemma rev_dropWhile_takeWhile:
  "rev (dropWhile P (rev xs)) @ rev (takeWhile P (rev xs)) = xs"
proof -
  have "rev (takeWhile P (rev xs) @ dropWhile P (rev xs)) = rev (rev xs)"
    by (simp only: takeWhile_dropWhile_id)
  then show ?thesis by (simp only: rev_append rev_rev_ident)
qed

lemma trim_infix: "\<exists>u v. s = u @ trim s @ v"
proof -
  let ?d = "dropWhile is_space s"
  have "?d = trim s @ rev (takeWhile is_space (rev ?d))"
    unfolding trim_def by (simp only: rev_dropWhile_takeWhile)
  moreover have "s = takeWhile is_space s @ ?d" by simp
  ultimately show ?thesis by metis
qed

lemma css_tight_trim: "css_tight s \<Longrightarrow> css_tight (trim s)"
proof -
  assume a: "css_tight s"
  from trim_infix obtain u v where "s = u @ trim s @ v" by blast
  with a have "adjacent_ok css_pair_ok (u @ trim s @ v)" by (simp add: css_tight_def)
  then show ?thesis
    unfolding css_tight_def by (blast dest: adjacent_ok_append_left adjacent_ok_append_right)
qed

lemma dropWhile_id: "starts_nonspace s \<Longrightarrow> dropWhile is_space s = s"
  by (cases s) auto

lemma starts_nonspace_prefix: "starts_nonspace (u @ v) \<Longrightarrow> starts_nonspace u"
  by (cases u) auto

lemma trim_trim: "trim (trim s) = trim s"
proof -
  let ?d = "dropWhile is_space s"
  let ?e = "dropWhile is_space (rev ?d)"
  have t: "trim s = rev ?e" by (simp add: trim_def)
  have "starts_nonspace ?d" by (rule starts_nonspace_dropWhile)
  then have "starts_nonspace (rev ?e @ rev (takeWhile is_space (rev ?d)))"
    by (simp only: rev_dropWhile_takeWhile)
  then have "starts_nonspace (rev ?e)" by (rule starts_nonspace_prefix)
  then have 1: "dropWhile is_space (rev ?e) = rev ?e" by (rule dropWhile_id)
  have "starts_nonspace ?e" by (rule starts_nonspace_dropWhile)
  then have 2: "dropWhile is_space ?e = ?e" by (rule dropWhile_id)
  have "trim (rev ?e) = rev ?e"
    unfolding trim_def 1 by (simp add: 2)
  with t show ?thesis by simp
qed



lemma collapse_space_starts: "starts_nonspace s \<Longrightarrow> starts_nonspace (collapse_space s)"
  by (cases s) auto

lemma no_space_run_collapse_space: "no_space_run (collapse_space s)"
proof (induction s rule: collapse_space.induct)
  case 1
  show ?case by simp
next
  case (2 c cs)
  show ?case
  proof (cases "is_space c")
    case True
    with 2(1) have "no_space_run (collapse_space (dropWhile is_space cs))" by blast
    moreover have "starts_nonspace (collapse_space (dropWhile is_space cs))"
      by (rule collapse_space_starts) (rule starts_nonspace_dropWhile)
    ultimately show ?thesis using True by (simp add: no_space_run_Cons)
  next
    case False
    with 2(2) show ?thesis by (simp add: no_space_run_Cons)
  qed
qed

lemma plain_spaces_collapse_space:
  "\<forall>c\<in>set (collapse_space s). is_space c \<longrightarrow> c = CHR '' ''"
  by (induction s rule: collapse_space.induct) auto




lemma dropWhile_Cons_less:
  "dropWhile P xs = d # ds \<Longrightarrow> \<exists>u. xs = u @ d # ds \<and> (\<forall>x\<in>set u. P x)"
  by (metis set_takeWhileD takeWhile_dropWhile_id)

lemma tighten_Nil:
  "dropWhile is_space (c # cs) = [] \<Longrightarrow> tighten_symbols (c # cs) = c # tighten_symbols cs"
  by (simp only: tighten_symbols.simps list.case)

lemma tighten_symbol:
  "dropWhile is_space (c # cs) = d # ds \<Longrightarrow> is_css_symbol d
   \<Longrightarrow> tighten_symbols (c # cs) = d # tighten_symbols (dropWhile is_space ds)"
  by (simp only: tighten_symbols.simps list.case if_True)

lemma tighten_other:
  "dropWhile is_space (c # cs) = d # ds \<Longrightarrow> \<not> is_css_symbol d
   \<Longrightarrow> tighten_symbols (c # cs) = c # tighten_symbols cs"
  by (simp only: tighten_symbols.simps list.case if_False)

lemma ws_deleted_tighten: "ws_deleted s (tighten_symbols s)"
proof (induction s rule: tighten_symbols.induct)
  case 1
  show ?case by (simp add: ws_deleted.nil)
next
  case (2 c cs)
  show ?case
  proof (cases "dropWhile is_space (c # cs)")
    case Nil
    with 2(1) have "ws_deleted cs (tighten_symbols cs)" by blast
    then show ?thesis unfolding tighten_Nil [OF Nil] by (rule ws_deleted.keep)
  next
    case (Cons d ds)
    show ?thesis
    proof (cases "is_css_symbol d")
      case False
      with 2(3) Cons have "ws_deleted cs (tighten_symbols cs)" by blast
      then show ?thesis unfolding tighten_other [OF Cons False] by (rule ws_deleted.keep)
    next
      case True
      with 2(2) Cons have ih: "ws_deleted (dropWhile is_space ds) (tighten_symbols (dropWhile is_space ds))"
        by blast
      have "ws_deleted ds (dropWhile is_space ds)" by (rule ws_deleted_dropWhile)
      from ws_deleted_trans [OF this ih] have "ws_deleted (d # ds) (d # tighten_symbols (dropWhile is_space ds))"
        by (rule ws_deleted.keep)
      moreover from dropWhile_Cons_less [OF Cons] obtain u where
        u: "c # cs = u @ d # ds" "\<forall>x\<in>set u. is_space x" by blast
      ultimately have "ws_deleted (c # cs) (d # tighten_symbols (dropWhile is_space ds))"
        using ws_deleted_spaces by metis
      then show ?thesis unfolding tighten_symbol [OF Cons True] .
    qed
  qed
qed


lemma no_space_run_adjacent:
  "no_space_run s = adjacent_ok (\<lambda>a b. \<not> (is_space a \<and> is_space b)) s"
  by (induction s rule: no_space_run.induct) auto

lemma no_space_run_append_right: "no_space_run (u @ v) \<Longrightarrow> no_space_run v"
  unfolding no_space_run_adjacent by (rule adjacent_ok_append_right)

lemma tighten_hd:
  "tighten_symbols s = h # r \<Longrightarrow> starts_nonspace s \<Longrightarrow> \<exists>t. s = h # t"
  by (cases s) (auto split: if_splits)

lemma css_tight_Cons:
  "css_tight (c # s) = ((case s of [] \<Rightarrow> True | b # r \<Rightarrow> css_pair_ok c b) \<and> css_tight s)"
  unfolding css_tight_def by (rule adjacent_ok_Cons)

lemma css_tight_tighten: "no_space_run s \<Longrightarrow> css_tight (tighten_symbols s)"
proof (induction s rule: tighten_symbols.induct)
  case 1
  show ?case by (simp add: css_tight_def)
next
  case (2 c cs)
  from 2(4) have nr: "no_space_run cs" and st: "\<not> is_space c \<or> starts_nonspace cs"
    by (simp_all add: no_space_run_Cons)
  have keep: "css_tight (c # tighten_symbols cs)"
    if ih: "css_tight (tighten_symbols cs)"
      and nomatch: "\<And>b t. dropWhile is_space (c # cs) = b # t \<Longrightarrow> \<not> is_css_symbol b"
  proof (cases "tighten_symbols cs")
    case Nil
    then show ?thesis by (simp add: css_tight_def)
  next
    case (Cons b r)
    have "css_pair_ok c b"
    proof (cases "is_space c")
      case True
      with st have sn: "starts_nonspace cs" by blast
      from tighten_hd [OF Cons sn] obtain t where t: "cs = b # t" by blast
      with sn have nb: "\<not> is_space b" by simp
      with True t have "dropWhile is_space (c # cs) = b # t" by simp
      from nomatch [OF this] nb show ?thesis by (simp add: css_pair_ok_def)
    next
      case False
      then have "dropWhile is_space (c # cs) = c # cs" by simp
      from nomatch [OF this] False show ?thesis by (simp add: css_pair_ok_def)
    qed
    with ih Cons show ?thesis by (simp add: css_tight_Cons)
  qed
  show ?case
  proof (cases "dropWhile is_space (c # cs)")
    case Nil
    with 2(1) nr have "css_tight (tighten_symbols cs)" by blast
    then have "css_tight (c # tighten_symbols cs)"
      by (rule keep) (simp only: Nil, simp)
    then show ?thesis unfolding tighten_Nil [OF Nil] .
  next
    case (Cons d ds)
    show ?thesis
    proof (cases "is_css_symbol d")
      case False
      with 2(3) Cons nr have "css_tight (tighten_symbols cs)" by blast
      then have "css_tight (c # tighten_symbols cs)"
        by (rule keep) (use Cons False in auto)
      then show ?thesis unfolding tighten_other [OF Cons False] .
    next
      case True
      from dropWhile_Cons_less [OF Cons] obtain u where u: "c # cs = u @ d # ds" by blast
      from 2(4) have "no_space_run (d # ds)"
        unfolding u by (rule no_space_run_append_right)
      then have "no_space_run ds" by (simp add: no_space_run_Cons)
      then have "no_space_run (takeWhile is_space ds @ dropWhile is_space ds)" by simp
      then have nu: "no_space_run (dropWhile is_space ds)" by (rule no_space_run_append_right)
      with 2(2) Cons True have ih: "css_tight (tighten_symbols (dropWhile is_space ds))" by blast
      have "css_tight (d # tighten_symbols (dropWhile is_space ds))"
      proof (cases "tighten_symbols (dropWhile is_space ds)")
        case Nil
        then show ?thesis by (simp add: css_tight_def)
      next
        case (Cons b r)
        from tighten_hd [OF Cons starts_nonspace_dropWhile] obtain t where
          t: "dropWhile is_space ds = b # t" by blast
        have "starts_nonspace (dropWhile is_space ds)" by (rule starts_nonspace_dropWhile)
        with t have "\<not> is_space b" by simp
        with symbol_not_space [OF True] have "css_pair_ok d b" by (simp add: css_pair_ok_def)
        with ih Cons show ?thesis by (simp add: css_tight_Cons)
      qed
      then show ?thesis unfolding tighten_symbol [OF Cons True] .
    qed
  qed
qed


lemma collapse_space_id:
  "\<forall>c\<in>set s. is_space c \<longrightarrow> c = CHR '' '' \<Longrightarrow> no_space_run s \<Longrightarrow> collapse_space s = s"
proof (induction s)
  case Nil
  show ?case by simp
next
  case (Cons c cs)
  from Cons.prems(2) have nr: "no_space_run cs" and st: "\<not> is_space c \<or> starts_nonspace cs"
    by (simp_all add: no_space_run_Cons)
  with Cons have ih: "collapse_space cs = cs" by simp
  show ?case
  proof (cases "is_space c")
    case True
    with st have "dropWhile is_space cs = cs" by (blast intro: dropWhile_id)
    with True ih Cons.prems(1) show ?thesis by simp
  next
    case False
    with ih show ?thesis by simp
  qed
qed

lemma tighten_id: "css_tight s \<Longrightarrow> tighten_symbols s = s"
proof (induction s)
  case Nil
  show ?case by simp
next
  case (Cons c cs)
  from Cons.prems have ct: "css_tight cs"
    and pr: "\<And>b t. cs = b # t \<Longrightarrow> css_pair_ok c b"
    by (auto simp: css_tight_Cons)
  with Cons.IH have ih: "tighten_symbols cs = cs" by blast
  have sn: "starts_nonspace cs" if "is_space c \<or> is_css_symbol c"
    using that pr by (cases cs) (auto simp: css_pair_ok_def)
  show ?case
  proof (cases "is_space c")
    case True
    then have dw: "dropWhile is_space (c # cs) = cs"
      using dropWhile_id [OF sn] by simp
    show ?thesis
    proof (cases cs)
      case Nil
      with dw have "dropWhile is_space (c # cs) = []" by simp
      from tighten_Nil [OF this] ih show ?thesis by simp
    next
      case (Cons b t)
      with pr True have "\<not> is_css_symbol b" by (auto simp: css_pair_ok_def)
      moreover from dw Cons have "dropWhile is_space (c # cs) = b # t" by simp
      ultimately have "tighten_symbols (c # cs) = c # tighten_symbols cs"
        by (rule tighten_other [rotated])
      with ih show ?thesis by simp
    qed
  next
    case False
    then have dw: "dropWhile is_space (c # cs) = c # cs" by simp
    show ?thesis
    proof (cases "is_css_symbol c")
      case True
      from tighten_symbol [OF dw True] dropWhile_id [OF sn] True ih show ?thesis by simp
    next
      case False
      from tighten_other [OF dw False] ih show ?thesis by simp
    qed
  qed
qed

text \<open>The pass that removes a semicolon before a closing brace.\<close>

lemma drop_semicolon_match:
  "replace_all_from '';}'' ''}'' passed (CHR '';'' # CHR ''}'' # t)
     = CHR ''}'' # replace_all_from '';}'' ''}'' (passed @ '';}'') t"
  using replace_all_from_match [of "'';}''" "''}''" passed t] by simp

lemma drop_semicolon_hd:
  "replace_all_from '';}'' ''}'' passed s = h # r
   \<Longrightarrow> (\<exists>t. s = h # t) \<or> (h = CHR ''}'' \<and> prefix '';}'' s)"
  by (cases s) (auto split: if_splits)

lemma drop_semicolon_set: "set (replace_all_from '';}'' ''}'' passed s) \<subseteq> set s"
proof (induction "'';}''" "''}''" passed s rule: replace_all_from.induct)
  case (1 passed)
  show ?case by simp
next
  case (2 passed c cs)
  show ?case
  proof (cases "prefix '';}'' (c # cs)")
    case True
    then obtain t where t: "c # cs = CHR '';'' # CHR ''}'' # t"
      by (auto simp: prefix_def)
    then have "drop (length '';}'') (c # cs) = t" by simp
    with 2(1) True have "set (replace_all_from '';}'' ''}'' (passed @ '';}'') t) \<subseteq> set t"
      by simp
    then show ?thesis unfolding t drop_semicolon_match by auto
  next
    case False
    with 2(2) have "set (replace_all_from '';}'' ''}'' (passed @ [c]) cs) \<subseteq> set cs" by simp
    then show ?thesis unfolding replace_all_from_nomatch [OF False] by auto
  qed
qed


lemma css_tight_drop_semicolon:
  "css_tight s \<Longrightarrow> css_tight (replace_all_from '';}'' ''}'' passed s)"
proof (induction "'';}''" "''}''" passed s rule: replace_all_from.induct)
  case (1 passed)
  show ?case by (simp add: css_tight_def)
next
  case (2 passed c cs)
  show ?case
  proof (cases "prefix '';}'' (c # cs)")
    case True
    then obtain t where t: "c # cs = CHR '';'' # CHR ''}'' # t"
      by (auto simp: prefix_def)
    then have dr: "drop (length '';}'') (c # cs) = t" by simp
    from 2(3) have ct: "css_tight t" and pr: "\<And>b t'. t = b # t' \<Longrightarrow> css_pair_ok CHR ''}'' b"
      unfolding t by (auto simp: css_tight_Cons)
    have "css_tight (replace_all_from '';}'' ''}'' (passed @ '';}'') (drop (length '';}'') (c # cs)))"
    proof (rule 2(1))
      show "'';}'' \<noteq> [] \<and> prefix '';}'' (c # cs)" by (rule conjI) (simp, rule True)
      show "css_tight (drop (length '';}'') (c # cs))" unfolding dr by (rule ct)
    qed
    then have ih: "css_tight (replace_all_from '';}'' ''}'' (passed @ '';}'') t)"
      unfolding dr .
    have "css_tight (CHR ''}'' # replace_all_from '';}'' ''}'' (passed @ '';}'') t)"
    proof (cases "replace_all_from '';}'' ''}'' (passed @ '';}'') t")
      case Nil
      then show ?thesis by (simp add: css_tight_def)
    next
      case (Cons b r)
      from drop_semicolon_hd [OF Cons] have "css_pair_ok CHR ''}'' b"
      proof
        assume "\<exists>t'. t = b # t'"
        with pr show ?thesis by blast
      next
        assume "b = CHR ''}'' \<and> prefix '';}'' t"
        then show ?thesis by (simp add: css_pair_ok_def is_space_def)
      qed
      with ih Cons show ?thesis by (simp add: css_tight_Cons)
    qed
    then show ?thesis unfolding t drop_semicolon_match .
  next
    case False
    from 2(3) have ct: "css_tight cs" and pr: "\<And>b t'. cs = b # t' \<Longrightarrow> css_pair_ok c b"
      by (auto simp: css_tight_Cons)
    have ih: "css_tight (replace_all_from '';}'' ''}'' (passed @ [c]) cs)"
    proof (rule 2(2))
      show "\<not> ('';}'' \<noteq> [] \<and> prefix '';}'' (c # cs))" using False by blast
      show "css_tight cs" by (rule ct)
    qed
    have "css_tight (c # replace_all_from '';}'' ''}'' (passed @ [c]) cs)"
    proof (cases "replace_all_from '';}'' ''}'' (passed @ [c]) cs")
      case Nil
      then show ?thesis by (simp add: css_tight_def)
    next
      case (Cons b r)
      from drop_semicolon_hd [OF Cons] have "css_pair_ok c b"
      proof
        assume "\<exists>t'. cs = b # t'"
        with pr show ?thesis by blast
      next
        assume a: "b = CHR ''}'' \<and> prefix '';}'' cs"
        then obtain t' where "cs = CHR '';'' # t'" by (auto simp: prefix_def)
        from pr [OF this] have "\<not> is_space c"
          by (simp add: css_pair_ok_def is_css_symbol_def)
        with a show ?thesis by (simp add: css_pair_ok_def is_space_def)
      qed
      with ih Cons show ?thesis by (simp add: css_tight_Cons)
    qed
    then show ?thesis unfolding replace_all_from_nomatch [OF False] .
  qed
qed

text \<open>What every output of \<open>minifyCSS\<close> looks like.\<close>

lemma minifyCSS_shape:
  "css_tight (minifyCSS css) \<and> no_space_run (minifyCSS css)
   \<and> (\<forall>c\<in>set (minifyCSS css). is_space c \<longrightarrow> c = CHR '' '')"
proof -
  let ?a = "collapse_space (remove_css_comments css)"
  let ?b = "tighten_symbols ?a"
  let ?c = "replace_all_from '';}'' ''}'' [] ?b"
  have y: "minifyCSS css = trim ?c"
    by (simp add: minifyCSS_def js_replace_all_def)
  have "css_tight ?b"
    by (rule css_tight_tighten) (rule no_space_run_collapse_space)
  then have "css_tight ?c" by (rule css_tight_drop_semicolon)
  then have t: "css_tight (trim ?c)" by (rule css_tight_trim)
  have "set (trim ?c) \<subseteq> set ?c"
    by (rule ws_deleted_set) (rule ws_deleted_trim)
  also have "\<dots> \<subseteq> set ?b" by (rule drop_semicolon_set)
  also have "\<dots> \<subseteq> set ?a" by (rule ws_deleted_set) (rule ws_deleted_tighten)
  finally have "set (trim ?c) \<subseteq> set ?a" .
  moreover have "\<forall>c\<in>set ?a. is_space c \<longrightarrow> c = CHR '' ''"
    by (rule plain_spaces_collapse_space)
  ultimately have p: "\<forall>c\<in>set (trim ?c). is_space c \<longrightarrow> c = CHR '' ''" by blast
  have "adjacent_ok css_pair_ok (trim ?c)" using t by (simp add: css_tight_def)
  then have "adjacent_ok (\<lambda>a b. \<not> (is_space a \<and> is_space b)) (trim ?c)"
    by (rule adjacent_ok_mono) (simp add: css_pair_ok_def)
  then have "no_space_run (trim ?c)" by (simp add: no_space_run_adjacent)
  with t p show ?thesis unfolding y by blast
qed

text \<open>
  C5, as the claim states it, fails: \<open>;}\<close> is replaced once, from left to right, so of
  two semicolons before a brace one is left, and a second run removes it.
\<close>

theorem minifyCSS_not_idempotent:
  "minifyCSS ''a{b:c;;}'' = ''a{b:c;}'' \<and> minifyCSS (minifyCSS ''a{b:c;;}'') = ''a{b:c}''"
  by code_simp

text \<open>
  C5, amended: minifying an output of \<open>minifyCSS\<close> again returns it unchanged whenever
  that output holds no \<open>/*\<close> and no \<open>;}\<close>; the name of the bundle file computed from the
  output is then the one computed from the input.
\<close>

theorem minifyCSS_idempotent_on_clean_output:
  assumes "\<not> includes_str (minifyCSS css) ''/*''"
    and "\<not> includes_str (minifyCSS css) '';}''"
  shows "minifyCSS (minifyCSS css) = minifyCSS css
    \<and> outputFileName md5 (minifyCSS css) = outputFileName md5 css"
proof -
  let ?y = "minifyCSS css"
  from minifyCSS_shape have ct: "css_tight ?y" and nr: "no_space_run ?y"
    and pl: "\<forall>c\<in>set ?y. is_space c \<longrightarrow> c = CHR '' ''"
    by blast+
  have 1: "remove_css_comments ?y = ?y" using assms(1) by (rule remove_css_comments_id)
  have 2: "collapse_space ?y = ?y" using pl nr by (rule collapse_space_id)
  have 3: "tighten_symbols ?y = ?y" using ct by (rule tighten_id)
  have 4: "js_replace_all ?y '';}'' ''}'' = ?y"
    unfolding js_replace_all_def using assms(2) by (rule replace_all_from_id)
  have 5: "trim ?y = ?y"
    unfolding minifyCSS_def by (rule trim_trim)
  have "minifyCSS ?y
      = trim (js_replace_all (tighten_symbols (collapse_space (remove_css_comments ?y))) '';}'' ''}'')"
    by (rule minifyCSS_def)
  also have "\<dots> = ?y" by (simp only: 1 2 3 4 5)
  finally have "minifyCSS ?y = ?y" .
  then show ?thesis by (simp add: outputFileName_def)
qed

theorem minifyCSS_idempotent_on_clean_output_witness:
  "\<not> includes_str (minifyCSS ''a { b : c ; }  /* x */ d , e { f : g }'') ''/*''
   \<and> \<not> includes_str (minifyCSS ''a { b : c ; }  /* x */ d , e { f : g }'') '';}''
   \<and> minifyCSS ''a { b : c ; }  /* x */ d , e { f : g }'' = ''a{b:c}d,e{f:g}''
   \<and> minifyCSS (minifyCSS ''a { b : c ; }  /* x */ d , e { f : g }'')
       = minifyCSS ''a { b : c ; }  /* x */ d , e { f : g }''"
proof -
  have m: "minifyCSS ''a { b : c ; }  /* x */ d , e { f : g }'' = ''a{b:c}d,e{f:g}''"
    by code_simp
  have h1: "\<not> includes_str (minifyCSS ''a { b : c ; }  /* x */ d , e { f : g }'') ''/*''"
    unfolding m by code_simp
  have h2: "\<not> includes_str (minifyCSS ''a { b : c ; }  /* x */ d , e { f : g }'') '';}''"
    unfolding m by code_simp
  from minifyCSS_idempotent_on_clean_output [OF h1 h2] h1 h2 m show ?thesis by blast
qed

section \<open>Removing the \<open>/public/\<close> prefix (page assembly)\<close>

text \<open>The replacement keeps the first character of the text it works on.\<close>

lemma strip_hd:
  "replace_all_from ''/public/'' ''/'' passed s = c # r \<Longrightarrow> \<exists>t. s = c # t"
  by (cases s) (auto split: if_splits)

text \<open>
  Text without a slash that the result starts with is text the input starts with: a
  replacement would have put a slash there.
\<close>

lemma strip_prefix:
  "prefix w (replace_all_from ''/public/'' ''/'' passed t) \<Longrightarrow> CHR ''/'' \<notin> set (butlast w)
   \<Longrightarrow> prefix w t"
proof (induction w arbitrary: passed t)
  case Nil
  show ?case by simp
next
  case (Cons c w)
  from Cons.prems(1) obtain r where r: "replace_all_from ''/public/'' ''/'' passed t = c # r"
    and wr: "prefix w r"
    by (cases "replace_all_from ''/public/'' ''/'' passed t") auto
  from strip_hd [OF r] obtain t' where t: "t = c # t'" by blast
  show ?case
  proof (cases "w = []")
    case True
    with t show ?thesis by simp
  next
    case False
    with Cons.prems(2) have c: "c \<noteq> CHR ''/''" and w: "CHR ''/'' \<notin> set (butlast w)"
      by auto
    from r t c have "r = replace_all_from ''/public/'' ''/'' (passed @ [c]) t'"
      by simp
    with wr Cons.IH w have "prefix w t'" by blast
    with t show ?thesis by simp
  qed
qed

text \<open>
  An occurrence of \<open>/public/\<close> in the result has a replaced occurrence at one of its
  two slashes, so the input held two occurrences sharing a slash.
\<close>

lemma strip_public_left:
  "includes_str (replace_all_from ''/public/'' ''/'' passed s) ''/public/''
   \<Longrightarrow> includes_str s ''/public/public/''"
proof (induction "''/public/''" "''/''" passed s rule: replace_all_from.induct)
  case (1 passed)
  then show ?case by (simp add: includes_str_Nil)
next
  case (2 passed c cs)
  show ?case
  proof (cases "prefix ''/public/'' (c # cs)")
    case True
    then obtain t where t: "c # cs = ''/public/'' @ t"
      by (auto simp: prefix_def)
    have dr: "drop (length ''/public/'') (c # cs) = t"
      using t by simp
    have eq: "replace_all_from ''/public/'' ''/'' passed (c # cs)
        = CHR ''/'' # replace_all_from ''/public/'' ''/'' (passed @ ''/public/'') t"
      unfolding t by (subst replace_all_from_match) simp_all
    from 2(3) eq have
      "prefix ''/public/'' (CHR ''/'' # replace_all_from ''/public/'' ''/'' (passed @ ''/public/'') t)
       \<or> includes_str (replace_all_from ''/public/'' ''/'' (passed @ ''/public/'') t) ''/public/''"
      by (simp add: includes_str_Cons)
    then show ?thesis
    proof
      assume "prefix ''/public/'' (CHR ''/'' # replace_all_from ''/public/'' ''/'' (passed @ ''/public/'') t)"
      then have "prefix ''public/'' (replace_all_from ''/public/'' ''/'' (passed @ ''/public/'') t)"
        by simp
      then have "prefix ''public/'' t"
        by (rule strip_prefix) simp
      then have "prefix ''/public/public/'' (c # cs)"
        unfolding t by simp
      then show ?thesis by (rule includes_str_prefix)
    next
      assume a: "includes_str (replace_all_from ''/public/'' ''/'' (passed @ ''/public/'') t) ''/public/''"
      have "includes_str (drop (length ''/public/'') (c # cs)) ''/public/public/''"
      proof (rule 2(1))
        show "''/public/'' \<noteq> [] \<and> prefix ''/public/'' (c # cs)"
          by (rule conjI) (simp, rule True)
        show "includes_str (replace_all_from ''/public/'' ''/'' (passed @ ''/public/'')
                (drop (length ''/public/'') (c # cs))) ''/public/''"
          unfolding dr by (rule a)
      qed
      then have "includes_str t ''/public/public/''"
        unfolding dr .
      then have "includes_str (''/public/'' @ t) ''/public/public/''"
        by (rule includes_str_append)
      then show ?thesis using t by simp
    qed
  next
    case False
    then have eq: "replace_all_from ''/public/'' ''/'' passed (c # cs)
        = c # replace_all_from ''/public/'' ''/'' (passed @ [c]) cs"
      by (rule replace_all_from_nomatch)
    from 2(3) eq have
      "prefix ''/public/'' (c # replace_all_from ''/public/'' ''/'' (passed @ [c]) cs)
       \<or> includes_str (replace_all_from ''/public/'' ''/'' (passed @ [c]) cs) ''/public/''"
      by (simp add: includes_str_Cons)
    then show ?thesis
    proof
      assume a: "prefix ''/public/'' (c # replace_all_from ''/public/'' ''/'' (passed @ [c]) cs)"
      note a [unfolded Cons_prefix_Cons]
      then have c: "c = CHR ''/''"
        and pr: "prefix ''public/'' (replace_all_from ''/public/'' ''/'' (passed @ [c]) cs)"
        by blast+
      from pr have "prefix ''public/'' cs"
        by (rule strip_prefix) simp
      with c have "prefix ''/public/'' (c # cs)"
        unfolding Cons_prefix_Cons by blast
      with False show ?thesis by blast
    next
      assume a: "includes_str (replace_all_from ''/public/'' ''/'' (passed @ [c]) cs) ''/public/''"
      have "includes_str cs ''/public/public/''"
      proof (rule 2(2))
        show "\<not> (''/public/'' \<noteq> [] \<and> prefix ''/public/'' (c # cs))"
          using False by blast
        show "includes_str (replace_all_from ''/public/'' ''/'' (passed @ [c]) cs) ''/public/''"
          by (rule a)
      qed
      then show ?thesis by (simp add: includes_str_Cons)
    qed
  qed
qed

text \<open>The replacement of \<open>/public/\<close>, by the first occurrence.\<close>

lemma strip_passed:
  "replace_all_from ''/public/'' ''/'' passed s = replace_all_from ''/public/'' ''/'' passed' s"
proof (induction "''/public/''" "''/''" passed s arbitrary: passed' rule: replace_all_from.induct)
  case (1 passed)
  show ?case by simp
next
  case (2 passed c cs)
  show ?case
  proof (cases "prefix ''/public/'' (c # cs)")
    case True
    then obtain t where t: "c # cs = ''/public/'' @ t"
      by (auto simp: prefix_def)
    have dr: "drop (length ''/public/'') (c # cs) = t"
      using t by simp
    have m: "''/public/'' \<noteq> [] \<and> prefix ''/public/'' (c # cs)"
      by (rule conjI) (simp, rule True)
    note ih = 2(1) [OF m, unfolded dr]
    have a: "replace_all_from ''/public/'' ''/'' p (c # cs)
        = CHR ''/'' # replace_all_from ''/public/'' ''/'' (p @ ''/public/'') t" for p
      unfolding t by (subst replace_all_from_match) simp_all
    show ?thesis
      unfolding a [of passed] a [of passed'] using ih [of "passed' @ ''/public/''"] by simp
  next
    case False
    then have m: "\<not> (''/public/'' \<noteq> [] \<and> prefix ''/public/'' (c # cs))" by blast
    show ?thesis
      unfolding replace_all_from_nomatch [OF False] using 2(2) [OF m, of "passed' @ [c]"] by simp
  qed
qed

lemma strip_public_none:
  "index_of ''/public/'' s = None \<Longrightarrow> strip_public s = s"
  unfolding strip_public_def js_replace_all_def index_of_None by (rule replace_all_from_id)

lemma strip_first:
  "index_of ''/public/'' s = Some i \<Longrightarrow>
   replace_all_from ''/public/'' ''/'' passed s
     = take i s @ ''/'' @ replace_all_from ''/public/'' ''/'' [] (drop (i + 8) s)"
proof (induction s arbitrary: i passed)
  case Nil
  then show ?case by simp
next
  case (Cons c cs)
  show ?case
  proof (cases "prefix ''/public/'' (c # cs)")
    case True
    then obtain t where t: "c # cs = ''/public/'' @ t"
      by (auto simp: prefix_def)
    have "index_of ''/public/'' (c # cs) = Some 0"
      using True by (simp only: index_of.simps if_True)
    with Cons.prems have "Some i = Some 0" by (simp only:)
    then have i: "i = 0" by blast
    have "replace_all_from ''/public/'' ''/'' passed (''/public/'' @ t)
        = ''/'' @ replace_all_from ''/public/'' ''/'' (passed @ ''/public/'') t"
      by (subst replace_all_from_match) simp_all
    also have "\<dots> = ''/'' @ replace_all_from ''/public/'' ''/'' [] t"
      by (simp only: strip_passed [of "passed @ ''/public/''" t "[]"])
    finally show ?thesis
      unfolding t i by simp
  next
    case False
    have "index_of ''/public/'' (c # cs) = map_option Suc (index_of ''/public/'' cs)"
      using False by (simp only: index_of.simps if_False)
    with Cons.prems have "map_option Suc (index_of ''/public/'' cs) = Some i" by (simp only:)
    then obtain j where j: "index_of ''/public/'' cs = Some j" and i: "i = Suc j"
      by blast
    have t: "take (Suc j) (c # cs) = c # take j cs" by simp
    have d: "drop (Suc j + 8) (c # cs) = drop (j + 8) cs"
      by (simp only: add_Suc drop_Suc_Cons)
    show ?thesis
      unfolding replace_all_from_nomatch [OF False] i t d Cons.IH [OF j, of "passed @ [c]"]
      by simp
  qed
qed

lemma strip_public_first:
  "index_of ''/public/'' s = Some i \<Longrightarrow>
   strip_public s = take i s @ ''/'' @ strip_public (drop (i + 8) s)"
  unfolding strip_public_def js_replace_all_def by (rule strip_first)

text \<open>
  C10, as the claim states it, fails: a page shell holding \<open>/public/public/a.png\<close> is
  written with \<open>/public/a.png\<close>. The global replacement takes the matches from left to
  right without overlap, so of two occurrences that share a slash only the first is
  replaced.
\<close>

theorem public_prefix_survives:
  "build_page empty_partials ''bundle.0.css'' ''<img src=/public/public/a.png>''
     = ''<img src=/public/a.png>''"
  by code_simp

text \<open>Minification joins what a comment or a line break kept apart.\<close>

lemma comment_removal_joins_public:
  "build_page empty_partials ''bundle.0.css'' ''<img src=/pub<!---->lic/a.png>''
     = ''<img src=/public/a.png>''"
  by code_simp

lemma newline_removal_joins_public:
  "build_page empty_partials ''bundle.0.css'' (''<a href=/public'' @ [CHR 0x0A] @ ''/a.html>'')
     = ''<a href=/public/a.html>''"
  by code_simp

text \<open>
  C10, amended: during page assembly the occurrences of \<open>/public/\<close> in the composed page
  are replaced by \<open>/\<close>, from left to right and without overlap, wherever they stand: a
  text without \<open>/public/\<close> is left as it is, and otherwise the first occurrence is replaced
  and the replacement goes on behind it. When the composed page holds no two occurrences
  that share a slash (no \<open>/public/public/\<close>), the text handed to the minifier holds no
  \<open>/public/\<close>. No \<open>/public/\<close> stands in the written page when the text after the
  replacement, with its comments removed and its white space left aside, nowhere spells
  \<open>/public/\<close>: nothing else can bring one into the minified page.
\<close>

theorem strip_public_left_to_right:
  "(\<forall>s. index_of ''/public/'' s = None \<longrightarrow> strip_public s = s)
   \<and> (\<forall>s i. index_of ''/public/'' s = Some i \<longrightarrow>
         strip_public s = take i s @ ''/'' @ strip_public (drop (i + 8) s))
   \<and> (\<not> includes_str html ''/public/public/'' \<longrightarrow> \<not> includes_str (strip_public html) ''/public/'')
   \<and> (\<not> includes_str (without_space (remove_html_comments
            (strip_public (compose_page p hashedCssFile html)))) ''/public/''
        \<longrightarrow> \<not> includes_str (build_page p hashedCssFile html) ''/public/'')"
proof -
  have a: "\<forall>s. index_of ''/public/'' s = None \<longrightarrow> strip_public s = s"
    using strip_public_none by blast
  have b: "\<forall>s i. index_of ''/public/'' s = Some i \<longrightarrow>
         strip_public s = take i s @ ''/'' @ strip_public (drop (i + 8) s)"
    using strip_public_first by blast
  have c: "\<not> includes_str html ''/public/public/'' \<longrightarrow> \<not> includes_str (strip_public html) ''/public/''"
    unfolding strip_public_def js_replace_all_def using strip_public_left by blast
  have w: "\<forall>c\<in>set ''/public/''. \<not> is_space c"
    by (simp add: is_space_def)
  have d: "\<not> includes_str (without_space (remove_html_comments
            (strip_public (compose_page p hashedCssFile html)))) ''/public/''
        \<longrightarrow> \<not> includes_str (build_page p hashedCssFile html) ''/public/''"
    unfolding build_page_def using minifyHTML_includes [OF w] by blast
  from a b c d show ?thesis by (intro conjI)
qed

theorem strip_public_left_to_right_witness:
  "strip_public ''<a href=/public/img/a.png>/public/</a>''
     = ''<a href='' @ ''/'' @ strip_public ''img/a.png>/public/</a>''
   \<and> strip_public ''<a href=/public/img/a.png>/public/</a>'' = ''<a href=/img/a.png>/</a>''
   \<and> \<not> includes_str (strip_public ''<a href=/public/img/a.png>/public/</a>'') ''/public/''
   \<and> \<not> includes_str
         (build_page empty_partials ''bundle.0.css'' ''<a href=/public/img/a.png>/public/</a>'')
         ''/public/''
   \<and> build_page empty_partials ''bundle.0.css'' ''<a href=/public/img/a.png>/public/</a>''
       = ''<a href=/img/a.png>/</a>''"
proof -
  note r = strip_public_left_to_right [of "''<a href=/public/img/a.png>/public/</a>''"
      empty_partials "''bundle.0.css''"]
  have i: "index_of ''/public/'' ''<a href=/public/img/a.png>/public/</a>'' = Some 8"
    by code_simp
  have t: "take 8 ''<a href=/public/img/a.png>/public/</a>'' = ''<a href=''"
    by simp
  have d: "drop (8 + 8) ''<a href=/public/img/a.png>/public/</a>'' = ''img/a.png>/public/</a>''"
    by simp
  from r have "\<forall>s i. index_of ''/public/'' s = Some i \<longrightarrow>
         strip_public s = take i s @ ''/'' @ strip_public (drop (i + 8) s)"
    by (elim conjE)
  from this [rule_format, OF i]
  have c1: "strip_public ''<a href=/public/img/a.png>/public/</a>''
     = ''<a href='' @ ''/'' @ strip_public ''img/a.png>/public/</a>''"
    unfolding t d .
  have c2: "strip_public ''<a href=/public/img/a.png>/public/</a>'' = ''<a href=/img/a.png>/</a>''"
    by code_simp
  have h: "\<not> includes_str ''<a href=/public/img/a.png>/public/</a>'' ''/public/public/''"
    by code_simp
  from r have "\<not> includes_str ''<a href=/public/img/a.png>/public/</a>'' ''/public/public/''
      \<longrightarrow> \<not> includes_str (strip_public ''<a href=/public/img/a.png>/public/</a>'') ''/public/''"
    by (elim conjE)
  from this h have c3: "\<not> includes_str (strip_public ''<a href=/public/img/a.png>/public/</a>'') ''/public/''"
    by (rule mp)
  have h2: "\<not> includes_str (without_space (remove_html_comments
            (strip_public (compose_page empty_partials ''bundle.0.css''
               ''<a href=/public/img/a.png>/public/</a>'')))) ''/public/''"
    by code_simp
  from r have "\<not> includes_str (without_space (remove_html_comments
            (strip_public (compose_page empty_partials ''bundle.0.css''
               ''<a href=/public/img/a.png>/public/</a>'')))) ''/public/''
      \<longrightarrow> \<not> includes_str (build_page empty_partials ''bundle.0.css''
               ''<a href=/public/img/a.png>/public/</a>'') ''/public/''"
    by (elim conjE)
  from this h2 have c4: "\<not> includes_str
         (build_page empty_partials ''bundle.0.css'' ''<a href=/public/img/a.png>/public/</a>'')
         ''/public/''"
    by (rule mp)
  have c5: "build_page empty_partials ''bundle.0.css'' ''<a href=/public/img/a.png>/public/</a>''
       = ''<a href=/img/a.png>/</a>''"
    by code_simp
  from c1 c2 c3 c4 c5 show ?thesis by (intro conjI)
qed

section \<open>The hashed file name\<close>

text \<open>
  C8, as the claim states it, fails: the hash is taken of the minified content, so a
  changed byte that minification removes (here a final newline for a final space)
  leaves the file name as it was, whatever the digest function.
\<close>

theorem changed_byte_same_filename:
  "minifyCSS (''a{color:red}'' @ [CHR 0x0A]) = ''a{color:red}''
   \<and> minifyCSS ''a{color:red} '' = ''a{color:red}''
   \<and> \<not> (\<forall>md5. outputFileName md5 (''a{color:red}'' @ [CHR 0x0A])
                \<noteq> outputFileName md5 ''a{color:red} '')"
proof -
  have a: "minifyCSS (''a{color:red}'' @ [CHR 0x0A]) = ''a{color:red}''" by code_simp
  have b: "minifyCSS ''a{color:red} '' = ''a{color:red}''" by code_simp
  have "outputFileName md5 (''a{color:red}'' @ [CHR 0x0A]) = outputFileName md5 ''a{color:red} ''"
    for md5 :: "string \<Rightarrow> string"
    unfolding outputFileName_def a b ..
  with a b show ?thesis by blast
qed

text \<open>
  C8, amended: the file name is \<open>bundle.\<close>, the first eight characters of the digest
  of the minified content, and \<open>.css\<close>; two inputs get the same name exactly when those
  eight characters agree, in particular whenever their minified contents are equal.
\<close>

theorem filename_by_minified_content:
  "outputFileName md5 css = ''bundle.'' @ take 8 (md5 (minifyCSS css)) @ ''.css''
   \<and> (outputFileName md5 css = outputFileName md5 css')
       = (take 8 (md5 (minifyCSS css)) = take 8 (md5 (minifyCSS css')))
   \<and> (minifyCSS css = minifyCSS css' \<longrightarrow> outputFileName md5 css = outputFileName md5 css')"
  by (simp add: outputFileName_def getContentHash_def)

theorem filename_by_minified_content_witness:
  "minifyCSS ''a { color : red ; }'' = minifyCSS ''a{color:red}''
   \<and> (\<forall>md5. outputFileName md5 ''a { color : red ; }'' = outputFileName md5 ''a{color:red}'')"
proof -
  have h: "minifyCSS ''a { color : red ; }'' = minifyCSS ''a{color:red}''"
    by code_simp
  have "outputFileName md5 ''a { color : red ; }'' = outputFileName md5 ''a{color:red}''"
    for md5 :: "string \<Rightarrow> string"
    using filename_by_minified_content [of md5 "''a { color : red ; }''" "''a{color:red}''"] h
    by blast
  with h show ?thesis by blast
qed

section \<open>CSS import inlining\<close>



lemma inlineCSS_Suc_cases:
  assumes "inlineCSS cwd fs (Suc n) p (seen, w) = Some (Inr (ps, st'))"
  obtains (seen) "p \<in> set seen" "ps = []" "st' = (seen, w)"
  | (read) content where "p \<notin> set seen" "fs p = Some (File content)"
      "inline_imports cwd fs n p (css_tokens [] content) (seen @ [p], w) = Some (Inr (ps, st'))"
  using assms
  by (auto simp: readFileSync_def split: if_splits sum.splits option.splits fs_node.splits)

lemma inline_imports_Text_cases:
  assumes "inline_imports cwd fs n f (Text t # ts) st = Some (Inr (ps, st'))"
  obtains qs where "ps = (f, t) # qs" "inline_imports cwd fs n f ts st = Some (Inr (qs, st'))"
  using assms by (auto split: option.splits sum.splits)

lemma inline_imports_Import_cases:
  assumes "inline_imports cwd fs n f (Import ip # ts) (seen, w) = Some (Inr (ps, st'))"
  obtains (missing) "fs (path_resolve cwd (path_dirname f) ip) = None"
      "inline_imports cwd fs n f ts (seen, w @ [path_resolve cwd (path_dirname f) ip])
         = Some (Inr (ps, st'))"
  | (found) ps1 st1 ps2 where "fs (path_resolve cwd (path_dirname f) ip) \<noteq> None"
      "inlineCSS cwd fs n (path_resolve cwd (path_dirname f) ip) (seen, w) = Some (Inr (ps1, st1))"
      "inline_imports cwd fs n f ts st1 = Some (Inr (ps2, st'))" "ps = ps1 @ ps2"
  using assms by (auto simp: Let_def split: if_splits option.splits sum.splits)

lemma inline_seen_grows:
  "inlineCSS cwd fs n p st = Some (Inr (ps, st')) \<Longrightarrow> prefix (fst st) (fst st')"
  "inline_imports cwd fs n f ts st = Some (Inr (ps, st')) \<Longrightarrow> prefix (fst st) (fst st')"
proof (induction cwd fs n p st and cwd fs n f ts st arbitrary: ps st' and ps st'
    rule: inlineCSS_inline_imports.induct)
  case (1 cwd fs filePath st)
  then show ?case by simp
next
  case (2 cwd fs n filePath seen warns)
  from 2(2) show ?case
  proof (cases rule: inlineCSS_Suc_cases)
    case seen
    then show ?thesis by simp
  next
    case (read content)
    then have "readFileSync fs filePath = Inr content" by (simp add: readFileSync_def)
    from 2(1) [OF read(1) this read(3)] show ?thesis by (auto dest: append_prefixD)
  qed
next
  case (3 cwd fs n filePath seen warns)
  then show ?case by simp
next
  case (4 cwd fs n filePath t ts st)
  from 4(2) show ?case
    by (cases rule: inline_imports_Text_cases) (rule 4(1))
next
  case (5 cwd fs n filePath importPath ts seen warns)
  from 5(4) show ?case
  proof (cases rule: inline_imports_Import_cases)
    case missing
    from 5(1) [OF refl missing(1) missing(2)] show ?thesis by simp
  next
    case (found ps1 st1 ps2)
    from 5(2) [OF refl found(1) found(2)] have a: "prefix seen (fst st1)" by simp
    obtain seen1 w1 where st1: "st1 = (seen1, w1)" by (cases st1)
    from 5(3) [OF refl found(1) found(2) [unfolded st1] refl refl found(3) [unfolded st1]]
    have "prefix seen1 (fst st')" by simp
    with a st1 show ?thesis by auto
  qed
qed


lemma texts_css_tokens_nonempty: "texts (css_tokens acc s) \<noteq> []"
  by (induction acc s rule: css_tokens.induct) (auto split: option.splits)

lemma pieces_of_append: "pieces_of f (ps @ qs) = pieces_of f ps @ pieces_of f qs"
  by (simp add: pieces_of_def)

lemma pieces_of_Cons:
  "pieces_of f ((g, t) # ps) = (if g = f then t # pieces_of f ps else pieces_of f ps)"
  by (simp add: pieces_of_def)

lemma pieces_of_empty: "f \<notin> fst ` set ps \<Longrightarrow> pieces_of f ps = []"
  by (induction ps) (auto simp: pieces_of_def)

lemma pieces_of_nonempty: "pieces_of f ps \<noteq> [] \<Longrightarrow> f \<in> fst ` set ps"
  using pieces_of_empty by blast

text \<open>
  What a successful run of the inliner keeps true: the set of seen paths stays free of
  duplicates and only grows, every piece of the result comes from a file seen in this
  run (or from the file whose imports are being replaced), and each file seen in this
  run is a readable file whose texts stand in the result once, in their order.
\<close>

lemma inline_invariants:
  "inlineCSS cwd fs n p st = Some (Inr (ps, st')) \<Longrightarrow> distinct (fst st) \<Longrightarrow>
     distinct (fst st') \<and> fst ` set ps \<subseteq> set (fst st') - set (fst st)
     \<and> (\<forall>g\<in>set (fst st') - set (fst st).
           \<exists>c. fs g = Some (File c) \<and> pieces_of g ps = texts (css_tokens [] c))"
  "inline_imports cwd fs n f ts st = Some (Inr (ps, st')) \<Longrightarrow> distinct (fst st) \<Longrightarrow>
     f \<in> set (fst st) \<Longrightarrow>
     distinct (fst st') \<and> fst ` set ps \<subseteq> insert f (set (fst st') - set (fst st))
     \<and> pieces_of f ps = texts ts
     \<and> (\<forall>g\<in>set (fst st') - set (fst st).
           \<exists>c. fs g = Some (File c) \<and> pieces_of g ps = texts (css_tokens [] c))"
proof (induction cwd fs n p st and cwd fs n f ts st arbitrary: ps st' and ps st'
    rule: inlineCSS_inline_imports.induct)
  case (1 cwd fs filePath st)
  then show ?case by simp
next
  case (2 cwd fs n filePath seen warns)
  from 2(2) show ?case
  proof (cases rule: inlineCSS_Suc_cases)
    case seen
    with 2(3) show ?thesis by simp
  next
    case (read content)
    then have rd: "readFileSync fs filePath = Inr content" by (simp add: readFileSync_def)
    have d: "distinct (fst (seen @ [filePath], warns))" using 2(3) read(1) by simp
    have m: "filePath \<in> set (fst (seen @ [filePath], warns))" by simp
    note ih = 2(1) [OF read(1) rd read(3) d m]
    from inline_seen_grows(2) [OF read(3)] have pre: "prefix (seen @ [filePath]) (fst st')"
      by simp
    then have fp: "filePath \<in> set (fst st')" by (auto simp: prefix_def)
    from ih fp read(1) read(2) show ?thesis by auto
  qed
next
  case (3 cwd fs n filePath seen warns)
  then show ?case by (simp add: pieces_of_def)
next
  case (4 cwd fs n filePath t ts st)
  from 4(2) obtain qs where ps: "ps = (filePath, t) # qs"
    and r: "inline_imports cwd fs n filePath ts st = Some (Inr (qs, st'))"
    by (rule inline_imports_Text_cases)
  note ih = 4(1) [OF r 4(3) 4(4)]
  have "\<And>g. g \<in> set (fst st') - set (fst st) \<Longrightarrow> g \<noteq> filePath" using 4(4) by blast
  with ih show ?case unfolding ps by (auto simp: pieces_of_Cons)
next
  case (5 cwd fs n filePath importPath ts seen warns)
  from 5(4) show ?case
  proof (cases rule: inline_imports_Import_cases)
    case missing
    from 5(1) [OF refl missing(1) missing(2)] 5(5) 5(6) show ?thesis by simp
  next
    case (found ps1 st1 ps2)
    obtain seen1 w1 where st1: "st1 = (seen1, w1)" by (cases st1)
    from 5(5) have d: "distinct (fst (seen, warns))" by simp
    note ih1 = 5(2) [OF refl found(1) found(2) d, unfolded st1 fst_conv]
    from inline_seen_grows(1) [OF found(2)] have p1: "prefix seen seen1" by (simp add: st1)
    from ih1 have d1: "distinct (fst (seen1, w1))" by simp
    from p1 5(6) have m1: "filePath \<in> set (fst (seen1, w1))" by (auto simp: prefix_def)
    note ih2 = 5(3) [OF refl found(1) found(2) [unfolded st1] refl refl found(3) [unfolded st1]
        d1 m1, unfolded fst_conv]
    from inline_seen_grows(2) [OF found(3)] have p2: "prefix seen1 (fst st')" by (simp add: st1)
    from p1 p2 have s1: "set seen \<subseteq> set seen1" and s2: "set seen1 \<subseteq> set (fst st')"
      by (auto simp: prefix_def)
    from 5(6) have fin: "filePath \<in> set seen" by simp
    have own1: "fst ` set ps1 \<subseteq> set seen1 - set seen" using ih1 by simp
    have own2: "fst ` set ps2 \<subseteq> insert filePath (set (fst st') - set seen1)" using ih2 by simp
    have "distinct (fst st')" using ih2 by simp
    moreover have "fst ` set ps \<subseteq> insert filePath (set (fst st') - set (fst (seen, warns)))"
      unfolding found(4) using own1 own2 s1 s2 by auto
    moreover have "pieces_of filePath ps = texts (Import importPath # ts)"
    proof -
      have "filePath \<notin> fst ` set ps1" using own1 fin by blast
      then have "pieces_of filePath ps1 = []" by (rule pieces_of_empty)
      moreover have "pieces_of filePath ps2 = texts ts" using ih2 by simp
      ultimately show ?thesis unfolding found(4) by (simp add: pieces_of_append)
    qed
    moreover have "\<forall>g\<in>set (fst st') - set (fst (seen, warns)).
        \<exists>c. fs g = Some (File c) \<and> pieces_of g ps = texts (css_tokens [] c)"
    proof
      fix g assume g: "g \<in> set (fst st') - set (fst (seen, warns))"
      then have gf: "g \<noteq> filePath" and gn: "g \<notin> set seen" and gi: "g \<in> set (fst st')"
        using fin by auto
      have all1: "\<forall>g\<in>set seen1 - set seen.
          \<exists>c. fs g = Some (File c) \<and> pieces_of g ps1 = texts (css_tokens [] c)"
        using ih1 by blast
      have all2: "\<forall>g\<in>set (fst st') - set seen1.
          \<exists>c. fs g = Some (File c) \<and> pieces_of g ps2 = texts (css_tokens [] c)"
        using ih2 by blast
      show "\<exists>c. fs g = Some (File c) \<and> pieces_of g ps = texts (css_tokens [] c)"
      proof (cases "g \<in> set seen1")
        case True
        with all1 gn obtain c where c: "fs g = Some (File c)"
          "pieces_of g ps1 = texts (css_tokens [] c)" by blast
        have "g \<notin> fst ` set ps2" using own2 gf True by blast
        then have "pieces_of g ps2 = []" by (rule pieces_of_empty)
        with c show ?thesis unfolding found(4) by (simp add: pieces_of_append)
      next
        case False
        with all2 gi obtain c where c: "fs g = Some (File c)"
          "pieces_of g ps2 = texts (css_tokens [] c)" by blast
        have "g \<notin> fst ` set ps1" using own1 False by blast
        then have "pieces_of g ps1 = []" by (rule pieces_of_empty)
        with c show ?thesis unfolding found(4) by (simp add: pieces_of_append)
      qed
    qed
    ultimately show ?thesis by blast
  qed
qed










lemma inline_imports_Import_missing:
  "fs (path_resolve cwd (path_dirname f) ip) = None \<Longrightarrow>
   inline_imports cwd fs n f (Import ip # ts) (seen, w)
     = inline_imports cwd fs n f ts (seen, w @ [path_resolve cwd (path_dirname f) ip])"
  by (simp add: Let_def)

lemma inline_imports_Import_found:
  "fs (path_resolve cwd (path_dirname f) ip) \<noteq> None \<Longrightarrow>
   inline_imports cwd fs n f (Import ip # ts) (seen, w)
     = (case inlineCSS cwd fs n (path_resolve cwd (path_dirname f) ip) (seen, w) of
          Some (Inr (ps, st')) \<Rightarrow>
            (case inline_imports cwd fs n f ts st' of
               Some (Inr (qs, st'')) \<Rightarrow> Some (Inr (ps @ qs, st''))
             | r \<Rightarrow> r)
        | r \<Rightarrow> r)"
  by (auto simp: Let_def)

text \<open>More fuel does not change a result.\<close>

lemma inline_fuel_mono:
  "inlineCSS cwd fs n p st = Some r \<Longrightarrow> n \<le> m \<Longrightarrow> inlineCSS cwd fs m p st = Some r"
  "inline_imports cwd fs n f ts st = Some r \<Longrightarrow> n \<le> m \<Longrightarrow> inline_imports cwd fs m f ts st = Some r"
proof (induction cwd fs n p st and cwd fs n f ts st arbitrary: r m and r m
    rule: inlineCSS_inline_imports.induct)
  case (1 cwd fs filePath st)
  then show ?case by simp
next
  case (2 cwd fs n filePath seen warns)
  from 2(3) obtain m' where m: "m = Suc m'" and le: "n \<le> m'" by (cases m) auto
  show ?case
  proof (cases "filePath \<in> set seen")
    case True
    with 2(2) show ?thesis by (simp add: m)
  next
    case False
    show ?thesis
    proof (cases "readFileSync fs filePath")
      case (Inl e)
      with 2(2) False show ?thesis by (simp add: m)
    next
      case (Inr content)
      with 2(2) False have
        "inline_imports cwd fs n filePath (css_tokens [] content) (seen @ [filePath], warns) = Some r"
        by simp
      from 2(1) [OF False Inr this le] False Inr show ?thesis by (simp add: m)
    qed
  qed
next
  case (3 cwd fs n filePath seen warns)
  then show ?case by simp
next
  case (4 cwd fs n filePath t ts st)
  from 4(2) obtain x where x: "inline_imports cwd fs n filePath ts st = Some x"
    by (cases "inline_imports cwd fs n filePath ts st") auto
  from 4(1) [OF x 4(3)] 4(2) x show ?case by simp
next
  case (5 cwd fs n filePath importPath ts seen warns)
  let ?r = "path_resolve cwd (path_dirname filePath) importPath"
  show ?case
  proof (cases "fs ?r = None")
    case True
    with 5(4) have "inline_imports cwd fs n filePath ts (seen, warns @ [?r]) = Some r"
      by (simp only: inline_imports_Import_missing [where fs=fs and cwd=cwd and f=filePath and ip=importPath, OF True])
    from 5(1) [OF refl True this 5(5)] show ?thesis
      by (simp only: inline_imports_Import_missing [where fs=fs and cwd=cwd and f=filePath and ip=importPath, OF True])
  next
    case False
    note 5(4) [unfolded inline_imports_Import_found [where fs=fs and cwd=cwd and f=filePath and ip=importPath, OF False]]
    note run = this
    then obtain x where x: "inlineCSS cwd fs n ?r (seen, warns) = Some x"
      by (cases "inlineCSS cwd fs n ?r (seen, warns)") auto
    note a = 5(2) [OF refl False x 5(5)]
    show ?thesis
    proof (cases x)
      case (Inl e)
      with run x a show ?thesis
        unfolding inline_imports_Import_found [where fs=fs and cwd=cwd and f=filePath and ip=importPath, OF False]
        by (auto split: sum.splits)
    next
      case (Inr y)
      obtain ps1 st1 where y: "y = (ps1, st1)" by (cases y)
      from run x Inr y obtain z where z: "inline_imports cwd fs n filePath ts st1 = Some z"
        by (cases "inline_imports cwd fs n filePath ts st1") auto
      note b = 5(3) [OF refl False x Inr y [symmetric] z 5(5)]
      from run x Inr y z a b show ?thesis
        unfolding inline_imports_Import_found [where fs=fs and cwd=cwd and f=filePath and ip=importPath, OF False]
        by (auto split: sum.splits option.splits)
    qed
  qed
qed

text \<open>
  The fuel that is always enough: one more than the number of paths of the file system
  that have not been seen.
\<close>

lemma unseen_shrinks:
  "finite (dom fs) \<Longrightarrow> set seen \<subseteq> set seen' \<Longrightarrow>
   card (dom fs - set seen') \<le> card (dom fs - set seen)"
  by (rule card_mono) auto

lemma inline_terminates:
  "finite (dom fs) \<Longrightarrow> card (dom fs - set (fst st)) < n \<Longrightarrow> inlineCSS cwd fs n p st \<noteq> None"
  "finite (dom fs) \<Longrightarrow> card (dom fs - set (fst st)) < n
     \<Longrightarrow> inline_imports cwd fs n f ts st \<noteq> None"
proof (induction cwd fs n p st and cwd fs n f ts st rule: inlineCSS_inline_imports.induct)
  case (1 cwd fs filePath st)
  then show ?case by simp
next
  case (2 cwd fs n filePath seen warns)
  show ?case
  proof (cases "filePath \<in> set seen")
    case True
    then show ?thesis by simp
  next
    case False
    show ?thesis
    proof (cases "readFileSync fs filePath")
      case (Inl e)
      with False show ?thesis by simp
    next
      case (Inr content)
      then have "filePath \<in> dom fs"
        by (auto simp: readFileSync_def split: option.splits fs_node.splits)
      with False have "filePath \<in> dom fs - set seen" by simp
      moreover have "dom fs - set (seen @ [filePath]) = (dom fs - set seen) - {filePath}"
        by auto
      moreover have "card ((dom fs - set seen) - {filePath}) < card (dom fs - set seen)"
        by (rule card_Diff1_less) (use 2(2) \<open>filePath \<in> dom fs - set seen\<close> in auto)
      ultimately have "card (dom fs - set (seen @ [filePath])) < card (dom fs - set seen)"
        by simp
      with 2(3) have "card (dom fs - set (fst (seen @ [filePath], warns))) < n" by simp
      from 2(1) [OF False Inr 2(2) this] False Inr show ?thesis by simp
    qed
  qed
next
  case (3 cwd fs n filePath seen warns)
  then show ?case by simp
next
  case (4 cwd fs n filePath t ts st)
  from 4(1) [OF 4(2) 4(3)] show ?case by (auto split: option.splits sum.splits)
next
  case (5 cwd fs n filePath importPath ts seen warns)
  let ?r = "path_resolve cwd (path_dirname filePath) importPath"
  show ?case
  proof (cases "fs ?r = None")
    case True
    from 5(1) [OF refl True 5(4)] 5(5) show ?thesis
      unfolding inline_imports_Import_missing [where fs=fs and cwd=cwd and f=filePath and ip=importPath, OF True]
      by simp
  next
    case False
    from 5(2) [OF refl False 5(4) 5(5)] obtain x where x: "inlineCSS cwd fs n ?r (seen, warns) = Some x"
      by blast
    show ?thesis
    proof (cases x)
      case (Inl e)
      with x show ?thesis unfolding inline_imports_Import_found [where fs=fs and cwd=cwd and f=filePath and ip=importPath, OF False] by simp
    next
      case (Inr y)
      obtain ps1 st1 where y: "y = (ps1, st1)" by (cases y)
      from inline_seen_grows(1) [OF x [unfolded Inr y]] have "set seen \<subseteq> set (fst st1)"
        by (auto simp: prefix_def)
      from unseen_shrinks [OF 5(4) this] 5(5) have "card (dom fs - set (fst st1)) < n" by simp
      from 5(3) [OF refl False x Inr y [symmetric] 5(4) this] x Inr y show ?thesis
        unfolding inline_imports_Import_found [where fs=fs and cwd=cwd and f=filePath and ip=importPath, OF False]
        by (auto split: option.splits sum.splits)
    qed
  qed
qed


text \<open>The warnings are a log: they only grow, and nothing else depends on them.\<close>

lemma inline_warns_grow:
  "inlineCSS cwd fs n p st = Some (Inr (ps, st')) \<Longrightarrow> prefix (snd st) (snd st')"
  "inline_imports cwd fs n f ts st = Some (Inr (ps, st')) \<Longrightarrow> prefix (snd st) (snd st')"
proof (induction cwd fs n p st and cwd fs n f ts st arbitrary: ps st' and ps st'
    rule: inlineCSS_inline_imports.induct)
  case (1 cwd fs filePath st)
  then show ?case by simp
next
  case (2 cwd fs n filePath seen warns)
  from 2(2) show ?case
  proof (cases rule: inlineCSS_Suc_cases)
    case seen
    then show ?thesis by simp
  next
    case (read content)
    then have "readFileSync fs filePath = Inr content" by (simp add: readFileSync_def)
    from 2(1) [OF read(1) this read(3)] show ?thesis by simp
  qed
next
  case (3 cwd fs n filePath seen warns)
  then show ?case by simp
next
  case (4 cwd fs n filePath t ts st)
  from 4(2) show ?case
    by (cases rule: inline_imports_Text_cases) (rule 4(1))
next
  case (5 cwd fs n filePath importPath ts seen warns)
  from 5(4) show ?case
  proof (cases rule: inline_imports_Import_cases)
    case missing
    from 5(1) [OF refl missing(1) missing(2)] show ?thesis by (auto dest: append_prefixD)
  next
    case (found ps1 st1 ps2)
    from 5(2) [OF refl found(1) found(2)] have a: "prefix warns (snd st1)" by simp
    obtain seen1 w1 where st1: "st1 = (seen1, w1)" by (cases st1)
    from 5(3) [OF refl found(1) found(2) [unfolded st1] refl refl found(3) [unfolded st1]]
    have "prefix w1 (snd st')" by simp
    with a st1 show ?thesis by auto
  qed
qed

lemma without_warnings_eq_cases:
  assumes "without_warnings r = without_warnings r'"
  obtains (none) "r = None" "r' = None"
  | (error) e where "r = Some (Inl e)" "r' = Some (Inl e)"
  | (ok) ps seen w w' where "r = Some (Inr (ps, seen, w))" "r' = Some (Inr (ps, seen, w'))"
proof (cases r)
  case None
  with assms have "r' = None" by (simp add: without_warnings_def)
  with None show ?thesis by (rule none)
next
  case (Some x)
  with assms obtain x' where x': "r' = Some x'" by (cases r') (auto simp: without_warnings_def)
  show ?thesis
  proof (cases x)
    case (Inl e)
    with assms Some x' have "x' = Inl e" by (cases x') (auto simp: without_warnings_def)
    with Some Inl x' show ?thesis by (auto intro: error)
  next
    case (Inr y)
    obtain ps seen w where y: "y = (ps, seen, w)" by (cases y)
    with assms Some x' Inr obtain w' where "x' = Inr (ps, seen, w')"
      by (cases x') (auto simp: without_warnings_def)
    with Some Inr y x' show ?thesis by (auto intro: ok)
  qed
qed

lemma inline_warns_irrelevant:
  "fst st = fst st2 \<Longrightarrow>
   without_warnings (inlineCSS cwd fs n p st) = without_warnings (inlineCSS cwd fs n p st2)"
  "fst st = fst st2 \<Longrightarrow>
   without_warnings (inline_imports cwd fs n f ts st)
     = without_warnings (inline_imports cwd fs n f ts st2)"
proof (induction cwd fs n p st and cwd fs n f ts st arbitrary: st2 and st2
    rule: inlineCSS_inline_imports.induct)
  case (1 cwd fs filePath st)
  show ?case by simp
next
  case (2 cwd fs n filePath seen warns)
  obtain w2 where st2: "st2 = (seen, w2)" using 2(2) by (cases st2) auto
  show ?case
  proof (cases "filePath \<in> set seen")
    case True
    then show ?thesis by (simp add: st2 without_warnings_def)
  next
    case False
    show ?thesis
    proof (cases "readFileSync fs filePath")
      case (Inl e)
      with False show ?thesis by (simp add: st2 without_warnings_def)
    next
      case (Inr content)
      have "fst (seen @ [filePath], warns) = fst (seen @ [filePath], w2)" by simp
      from 2(1) [OF False Inr this] False Inr show ?thesis by (simp add: st2)
    qed
  qed
next
  case (3 cwd fs n filePath seen warns)
  then show ?case by (cases st2) (simp add: without_warnings_def)
next
  case (4 cwd fs n filePath t ts st)
  from 4(1) [OF 4(2)] show ?case
    by (cases rule: without_warnings_eq_cases) (simp_all add: without_warnings_def)
next
  case (5 cwd fs n filePath importPath ts seen warns)
  let ?r = "path_resolve cwd (path_dirname filePath) importPath"
  obtain w2 where st2: "st2 = (seen, w2)" using 5(4) by (cases st2) auto
  show ?case
  proof (cases "fs ?r = None")
    case True
    have "fst (seen, warns @ [?r]) = fst (seen, w2 @ [?r])" by simp
    from 5(1) [OF refl True this] show ?thesis
      unfolding st2
        inline_imports_Import_missing [where fs=fs and cwd=cwd and f=filePath and ip=importPath, OF True] .
  next
    case False
    have "fst (seen, warns) = fst (seen, w2)" by simp
    from 5(2) [OF refl False this] show ?thesis
    proof (cases rule: without_warnings_eq_cases)
      case none
      then show ?thesis
        unfolding st2
          inline_imports_Import_found [where fs=fs and cwd=cwd and f=filePath and ip=importPath, OF False]
        by simp
    next
      case (error e)
      then show ?thesis
        unfolding st2
          inline_imports_Import_found [where fs=fs and cwd=cwd and f=filePath and ip=importPath, OF False]
        by simp
    next
      case (ok ps1 seen1 w1 w1')
      note o1 = ok
      have "fst (seen1, w1) = fst (seen1, w1')" by simp
      from 5(3) [OF refl False o1(1) refl refl this] show ?thesis
      proof (cases rule: without_warnings_eq_cases)
        case none
        with o1 show ?thesis
          unfolding st2
            inline_imports_Import_found [where fs=fs and cwd=cwd and f=filePath and ip=importPath, OF False]
          by simp
      next
        case (error e)
        with o1 show ?thesis
          unfolding st2
            inline_imports_Import_found [where fs=fs and cwd=cwd and f=filePath and ip=importPath, OF False]
          by simp
      next
        case (ok ps2 seen2 v2 v2')
        with o1 show ?thesis
          unfolding st2
            inline_imports_Import_found [where fs=fs and cwd=cwd and f=filePath and ip=importPath, OF False]
          by (simp add: without_warnings_def)
      qed
    qed
  qed
qed






lemma missing_import_same_result:
  assumes "fs (path_resolve cwd (path_dirname f) ip) = None"
  shows "without_warnings (inline_imports cwd fs n f (ts1 @ Import ip # ts2) st)
    = without_warnings (inline_imports cwd fs n f (ts1 @ ts2) st)"
proof (induction ts1 arbitrary: st)
  case Nil
  obtain seen w where st: "st = (seen, w)" by (cases st)
  have "fst (seen, w @ [path_resolve cwd (path_dirname f) ip]) = fst (seen, w)" by simp
  from inline_warns_irrelevant(2) [OF this] show ?case
    unfolding st append_Nil
      inline_imports_Import_missing [where fs=fs and cwd=cwd and f=f and ip=ip, OF assms] .
next
  case (Cons tok ts1)
  show ?case
  proof (cases tok)
    case (Text t)
    from Cons.IH [of st] show ?thesis
      by (cases rule: without_warnings_eq_cases) (simp_all add: Text without_warnings_def)
  next
    case (Import p)
    let ?r = "path_resolve cwd (path_dirname f) p"
    obtain seen w where st: "st = (seen, w)" by (cases st)
    show ?thesis
    proof (cases "fs ?r = None")
      case True
      from Cons.IH [of "(seen, w @ [?r])"] show ?thesis
        unfolding Import st append_Cons
          inline_imports_Import_missing [where fs=fs and cwd=cwd and f=f and ip=p, OF True] .
    next
      case False
      show ?thesis
      proof (cases "inlineCSS cwd fs n ?r (seen, w)")
        case None
        then show ?thesis
          unfolding Import st append_Cons
            inline_imports_Import_found [where fs=fs and cwd=cwd and f=f and ip=p, OF False]
          by simp
      next
        case (Some x)
        show ?thesis
        proof (cases x)
          case (Inl e)
          with Some show ?thesis
            unfolding Import st append_Cons
              inline_imports_Import_found [where fs=fs and cwd=cwd and f=f and ip=p, OF False]
            by simp
        next
          case (Inr y)
          obtain ps1 st1 where y: "y = (ps1, st1)" by (cases y)
          from Cons.IH [of st1] show ?thesis
            by (cases rule: without_warnings_eq_cases)
              (simp_all add: Import st Some Inr y without_warnings_def
                inline_imports_Import_found [where fs=fs and cwd=cwd and f=f and ip=p, OF False]
                del: inline_imports.simps)
        qed
      qed
    qed
  qed
qed

lemma missing_import_warns:
  assumes "fs (path_resolve cwd (path_dirname f) ip) = None"
  shows "inline_imports cwd fs n f (ts1 @ Import ip # ts2) st = Some (Inr (ps, st'))
    \<Longrightarrow> path_resolve cwd (path_dirname f) ip \<in> set (snd st')"
proof (induction ts1 arbitrary: st ps)
  case Nil
  obtain seen w where st: "st = (seen, w)" by (cases st)
  from Nil [unfolded st append_Nil
      inline_imports_Import_missing [where fs=fs and cwd=cwd and f=f and ip=ip, OF assms]]
  have "prefix (w @ [path_resolve cwd (path_dirname f) ip]) (snd st')"
    using inline_warns_grow(2) by fastforce
  then show ?case by (auto simp: prefix_def)
next
  case (Cons tok ts1)
  show ?case
  proof (cases tok)
    case (Text t)
    from Cons.prems [unfolded Text append_Cons] obtain qs where
      "inline_imports cwd fs n f (ts1 @ Import ip # ts2) st = Some (Inr (qs, st'))"
      by (rule inline_imports_Text_cases)
    then show ?thesis by (rule Cons.IH)
  next
    case (Import p)
    obtain seen w where st: "st = (seen, w)" by (cases st)
    from Cons.prems [unfolded Import st append_Cons] show ?thesis
    proof (cases rule: inline_imports_Import_cases)
      case missing
      from missing(2) show ?thesis by (rule Cons.IH)
    next
      case (found ps1 st1 ps2)
      from found(3) show ?thesis by (rule Cons.IH)
    qed
  qed
qed


text \<open>
  Reading fails only for a path that is not a file: when no import statement of a file
  resolves to a directory, a run on a file does not end with an error.
\<close>

lemma import_targets_append:
  "import_targets cwd fs f (ts1 @ ts2) = import_targets cwd fs f ts1 @ import_targets cwd fs f ts2"
  by (induction cwd fs f ts1 rule: import_targets.induct) simp_all

lemma inline_no_error:
  "\<forall>g. \<forall>q\<in>set (imports_of cwd fs g). fs q \<noteq> Some Directory \<Longrightarrow> fs p \<noteq> None \<Longrightarrow>
   fs p \<noteq> Some Directory \<Longrightarrow> inlineCSS cwd fs n p st \<noteq> Some (Inl e)"
  "\<forall>g. \<forall>q\<in>set (imports_of cwd fs g). fs q \<noteq> Some Directory \<Longrightarrow>
   \<forall>q\<in>set (import_targets cwd fs f ts). fs q \<noteq> Some Directory \<Longrightarrow>
   inline_imports cwd fs n f ts st \<noteq> Some (Inl e)"
proof (induction cwd fs n p st and cwd fs n f ts st rule: inlineCSS_inline_imports.induct)
  case (1 cwd fs filePath st)
  then show ?case by simp
next
  case (2 cwd fs n filePath seen warns)
  show ?case
  proof (cases "filePath \<in> set seen")
    case True
    then show ?thesis by simp
  next
    case False
    from 2(3,4) obtain content where c: "fs filePath = Some (File content)"
      by (cases "fs filePath") (auto intro: fs_node.exhaust)
    then have rd: "readFileSync fs filePath = Inr content" by (simp add: readFileSync_def)
    from c have "imports_of cwd fs filePath = import_targets cwd fs filePath (css_tokens [] content)"
      by (simp add: imports_of_def)
    with 2(2) have "\<forall>q\<in>set (import_targets cwd fs filePath (css_tokens [] content)).
        fs q \<noteq> Some Directory"
      by metis
    from 2(1) [OF False rd 2(2) this] False rd show ?thesis by simp
  qed
next
  case (3 cwd fs n filePath seen warns)
  then show ?case by simp
next
  case (4 cwd fs n filePath t ts st)
  from 4(3) have "\<forall>q\<in>set (import_targets cwd fs filePath ts). fs q \<noteq> Some Directory"
    by simp
  from 4(1) [OF 4(2) this] show ?case by (auto split: option.splits sum.splits)
next
  case (5 cwd fs n filePath importPath ts seen warns)
  let ?r = "path_resolve cwd (path_dirname filePath) importPath"
  show ?case
  proof (cases "fs ?r = None")
    case True
    then have "import_targets cwd fs filePath (Import importPath # ts)
        = import_targets cwd fs filePath ts"
      by simp
    with 5(5) have "\<forall>q\<in>set (import_targets cwd fs filePath ts). fs q \<noteq> Some Directory"
      by simp
    from 5(1) [OF refl True 5(4) this] show ?thesis
      unfolding inline_imports_Import_missing [where fs=fs and cwd=cwd and f=filePath and ip=importPath, OF True]
      by simp
  next
    case False
    then have it: "import_targets cwd fs filePath (Import importPath # ts)
        = ?r # import_targets cwd fs filePath ts"
      by simp
    from 5(5) have nd: "fs ?r \<noteq> Some Directory"
      and rest: "\<forall>q\<in>set (import_targets cwd fs filePath ts). fs q \<noteq> Some Directory"
      unfolding it by simp_all
    note a = 5(2) [OF refl False 5(4) False nd]
    show ?thesis
    proof (cases "inlineCSS cwd fs n ?r (seen, warns)")
      case None
      then show ?thesis
        unfolding inline_imports_Import_found [where fs=fs and cwd=cwd and f=filePath and ip=importPath, OF False]
        by simp
    next
      case (Some x)
      show ?thesis
      proof (cases x)
        case (Inl e')
        with Some a show ?thesis
          unfolding inline_imports_Import_found [where fs=fs and cwd=cwd and f=filePath and ip=importPath, OF False]
          by simp
      next
        case (Inr y)
        obtain ps1 st1 where y: "y = (ps1, st1)" by (cases y)
        from 5(3) [OF refl False Some Inr y [symmetric] 5(4) rest] Some Inr y show ?thesis
          unfolding inline_imports_Import_found [where fs=fs and cwd=cwd and f=filePath and ip=importPath, OF False]
          by (auto split: option.splits sum.splits)
      qed
    qed
  qed
qed

lemma inline_succeeds:
  assumes "finite (dom fs)" and "\<forall>g. \<forall>q\<in>set (imports_of cwd fs g). fs q \<noteq> Some Directory"
    and "card (dom fs - set (fst st)) < n"
  shows "fs p \<noteq> None \<Longrightarrow> fs p \<noteq> Some Directory
      \<Longrightarrow> \<exists>ps st'. inlineCSS cwd fs n p st = Some (Inr (ps, st'))"
    and "\<forall>q\<in>set (import_targets cwd fs f ts). fs q \<noteq> Some Directory
      \<Longrightarrow> \<exists>ps st'. inline_imports cwd fs n f ts st = Some (Inr (ps, st'))"
proof -
  assume p: "fs p \<noteq> None" "fs p \<noteq> Some Directory"
  from inline_terminates(1) [OF assms(1,3)] obtain r where r: "inlineCSS cwd fs n p st = Some r"
    by blast
  show "\<exists>ps st'. inlineCSS cwd fs n p st = Some (Inr (ps, st'))"
  proof (cases r)
    case (Inl e)
    with r inline_no_error(1) [OF assms(2) p] show ?thesis by blast
  next
    case (Inr y)
    with r show ?thesis by (cases y) simp
  qed
next
  assume t: "\<forall>q\<in>set (import_targets cwd fs f ts). fs q \<noteq> Some Directory"
  from inline_terminates(2) [OF assms(1,3)] obtain r where r: "inline_imports cwd fs n f ts st = Some r"
    by blast
  show "\<exists>ps st'. inline_imports cwd fs n f ts st = Some (Inr (ps, st'))"
  proof (cases r)
    case (Inl e)
    with r inline_no_error(2) [OF assms(2) t] show ?thesis by blast
  next
    case (Inr y)
    with r show ?thesis by (cases y) simp
  qed
qed

text \<open>
  C9: an import statement whose file does not exist is replaced by nothing and reported
  by a warning, and the run goes on. Wherever the statement stands among the tokens of a
  file, in a finite file system and with more fuel than there are unseen paths, the run
  returns; its outcome (the pieces, the seen paths, or the error of another import) is the
  one for the tokens without the statement; a run that succeeds holds the warning for the
  resolved path; and when no import statement, of this token list or of any file, resolves
  to a directory, which is the one thing that makes reading an existing import fail, the
  run does succeed, with that warning.
\<close>

theorem missing_import_skipped:
  assumes "fs (path_resolve cwd (path_dirname f) ip) = None"
    and "finite (dom fs)" and "card (dom fs - set (fst st)) < n"
  shows "(\<exists>r. inline_imports cwd fs n f (ts1 @ Import ip # ts2) st = Some r)
    \<and> without_warnings (inline_imports cwd fs n f (ts1 @ Import ip # ts2) st)
      = without_warnings (inline_imports cwd fs n f (ts1 @ ts2) st)
    \<and> (\<forall>ps st'. inline_imports cwd fs n f (ts1 @ Import ip # ts2) st = Some (Inr (ps, st'))
          \<longrightarrow> path_resolve cwd (path_dirname f) ip \<in> set (snd st'))
    \<and> ((\<forall>g. \<forall>q\<in>set (imports_of cwd fs g). fs q \<noteq> Some Directory)
        \<and> (\<forall>q\<in>set (import_targets cwd fs f (ts1 @ ts2)). fs q \<noteq> Some Directory) \<longrightarrow>
          (\<exists>ps st'. inline_imports cwd fs n f (ts1 @ Import ip # ts2) st = Some (Inr (ps, st'))
             \<and> path_resolve cwd (path_dirname f) ip \<in> set (snd st')))"
proof -
  have a: "\<exists>r. inline_imports cwd fs n f (ts1 @ Import ip # ts2) st = Some r"
    using inline_terminates(2) [OF assms(2,3)] by blast
  have b: "without_warnings (inline_imports cwd fs n f (ts1 @ Import ip # ts2) st)
      = without_warnings (inline_imports cwd fs n f (ts1 @ ts2) st)"
    by (rule missing_import_same_result [where fs=fs and cwd=cwd and f=f and ip=ip, OF assms(1)])
  have c: "\<forall>ps st'. inline_imports cwd fs n f (ts1 @ Import ip # ts2) st = Some (Inr (ps, st'))
          \<longrightarrow> path_resolve cwd (path_dirname f) ip \<in> set (snd st')"
    using missing_import_warns [where fs=fs and cwd=cwd and f=f and ip=ip, OF assms(1)] by blast
  have d: "(\<forall>g. \<forall>q\<in>set (imports_of cwd fs g). fs q \<noteq> Some Directory)
        \<and> (\<forall>q\<in>set (import_targets cwd fs f (ts1 @ ts2)). fs q \<noteq> Some Directory) \<longrightarrow>
          (\<exists>ps st'. inline_imports cwd fs n f (ts1 @ Import ip # ts2) st = Some (Inr (ps, st'))
             \<and> path_resolve cwd (path_dirname f) ip \<in> set (snd st'))"
  proof
    assume h: "(\<forall>g. \<forall>q\<in>set (imports_of cwd fs g). fs q \<noteq> Some Directory)
        \<and> (\<forall>q\<in>set (import_targets cwd fs f (ts1 @ ts2)). fs q \<noteq> Some Directory)"
    from assms(1) have "import_targets cwd fs f (ts1 @ Import ip # ts2)
        = import_targets cwd fs f (ts1 @ ts2)"
      by (simp add: import_targets_append)
    with h have t: "\<forall>q\<in>set (import_targets cwd fs f (ts1 @ Import ip # ts2)). fs q \<noteq> Some Directory"
      by simp
    from h have g: "\<forall>g. \<forall>q\<in>set (imports_of cwd fs g). fs q \<noteq> Some Directory" ..
    from inline_succeeds(2) [OF assms(2) g assms(3) t] obtain ps st' where
      r: "inline_imports cwd fs n f (ts1 @ Import ip # ts2) st = Some (Inr (ps, st'))"
      by blast
    with c have "path_resolve cwd (path_dirname f) ip \<in> set (snd st')" by blast
    with r show "\<exists>ps st'. inline_imports cwd fs n f (ts1 @ Import ip # ts2) st = Some (Inr (ps, st'))
             \<and> path_resolve cwd (path_dirname f) ip \<in> set (snd st')"
      by blast
  qed
  from a b c d show ?thesis by (intro conjI)
qed

theorem missing_import_skipped_witness:
  "fs_missing (path_resolve ''/'' (path_dirname ''/src/css/main.css'') ''nope.css'') = None
   \<and> css_tokens [] (''a{}'' @ import_line ''nope.css'' @ ''b{}'')
       = [Text ''a{}''] @ Import ''nope.css'' # [Text ''b{}'']
   \<and> inlineCSS ''/'' fs_missing 2 ''/src/css/main.css'' ([], [])
       = Some (Inr ([(''/src/css/main.css'', ''a{}''), (''/src/css/main.css'', ''b{}'')],
                    [''/src/css/main.css''], [''/src/css/nope.css'']))
   \<and> without_warnings (inline_imports ''/'' fs_missing 1 ''/src/css/main.css''
         ([Text ''a{}''] @ Import ''nope.css'' # [Text ''b{}'']) ([''/src/css/main.css''], []))
       = without_warnings (inline_imports ''/'' fs_missing 1 ''/src/css/main.css''
         ([Text ''a{}''] @ [Text ''b{}'']) ([''/src/css/main.css''], []))
   \<and> (\<exists>ps st'. inline_imports ''/'' fs_missing 1 ''/src/css/main.css''
         ([Text ''a{}''] @ Import ''nope.css'' # [Text ''b{}'']) ([''/src/css/main.css''], [])
           = Some (Inr (ps, st'))
         \<and> path_resolve ''/'' (path_dirname ''/src/css/main.css'') ''nope.css'' \<in> set (snd st'))"
proof -
  have h: "fs_missing (path_resolve ''/'' (path_dirname ''/src/css/main.css'') ''nope.css'') = None"
    by code_simp
  have t: "css_tokens [] (''a{}'' @ import_line ''nope.css'' @ ''b{}'')
      = [Text ''a{}''] @ Import ''nope.css'' # [Text ''b{}'']"
    by code_simp
  have r: "inlineCSS ''/'' fs_missing 2 ''/src/css/main.css'' ([], [])
      = Some (Inr ([(''/src/css/main.css'', ''a{}''), (''/src/css/main.css'', ''b{}'')],
                   [''/src/css/main.css''], [''/src/css/nope.css'']))"
    by code_simp
  have f: "finite (dom fs_missing)" by (simp add: fs_missing_def)
  have "dom fs_missing = {''/src/css/main.css''}"
    by (auto simp: fs_missing_def split: if_splits)
  then have c: "card (dom fs_missing - set (fst ([''/src/css/main.css''], ([] :: string list)))) < 1"
    by simp
  have "\<forall>q. fs_missing q \<noteq> Some Directory"
    by (simp add: fs_missing_def)
  then have nd: "(\<forall>g. \<forall>q\<in>set (imports_of ''/'' fs_missing g). fs_missing q \<noteq> Some Directory)
      \<and> (\<forall>q\<in>set (import_targets ''/'' fs_missing ''/src/css/main.css''
             ([Text ''a{}''] @ [Text ''b{}''])). fs_missing q \<noteq> Some Directory)"
    by blast
  note m = missing_import_skipped [of fs_missing "''/''" "''/src/css/main.css''" "''nope.css''",
      OF h f c, of "[Text ''a{}'']" "[Text ''b{}'']"]
  from m have m2: "without_warnings (inline_imports ''/'' fs_missing 1 ''/src/css/main.css''
         ([Text ''a{}''] @ Import ''nope.css'' # [Text ''b{}'']) ([''/src/css/main.css''], []))
       = without_warnings (inline_imports ''/'' fs_missing 1 ''/src/css/main.css''
         ([Text ''a{}''] @ [Text ''b{}'']) ([''/src/css/main.css''], []))"
    by (elim conjE)
  from m have "(\<forall>g. \<forall>q\<in>set (imports_of ''/'' fs_missing g). fs_missing q \<noteq> Some Directory)
      \<and> (\<forall>q\<in>set (import_targets ''/'' fs_missing ''/src/css/main.css''
             ([Text ''a{}''] @ [Text ''b{}''])). fs_missing q \<noteq> Some Directory) \<longrightarrow>
     (\<exists>ps st'. inline_imports ''/'' fs_missing 1 ''/src/css/main.css''
         ([Text ''a{}''] @ Import ''nope.css'' # [Text ''b{}'']) ([''/src/css/main.css''], [])
           = Some (Inr (ps, st'))
         \<and> path_resolve ''/'' (path_dirname ''/src/css/main.css'') ''nope.css'' \<in> set (snd st'))"
    by (elim conjE)
  with nd have m4: "\<exists>ps st'. inline_imports ''/'' fs_missing 1 ''/src/css/main.css''
         ([Text ''a{}''] @ Import ''nope.css'' # [Text ''b{}'']) ([''/src/css/main.css''], [])
           = Some (Inr (ps, st'))
         \<and> path_resolve ''/'' (path_dirname ''/src/css/main.css'') ''nope.css'' \<in> set (snd st')"
    by (rule rev_mp)
  from h t r m2 m4 show ?thesis by (intro conjI)
qed

text \<open>
  C4: on every import graph, cyclic ones included, the inlining terminates: with more
  fuel than there are unseen paths in the (finite) file system the run returns, and
  every larger fuel gives the same result. An import of a file already seen yields no
  content and no error, the seen paths stay free of duplicates, and the texts of a
  file stand in the bundle at most once.
\<close>

theorem inlineCSS_terminates:
  assumes "finite (dom fs)" and "card (dom fs - set seen) < n"
  shows "\<exists>r. inlineCSS cwd fs n p (seen, warns) = Some r
    \<and> (\<forall>m\<ge>n. inlineCSS cwd fs m p (seen, warns) = Some r)
    \<and> (p \<in> set seen \<longrightarrow> r = Inr ([], seen, warns))
    \<and> (\<forall>ps seen' warns'. r = Inr (ps, seen', warns') \<and> distinct seen \<longrightarrow>
          distinct seen' \<and> prefix seen seen'
          \<and> (\<forall>g. pieces_of g ps = []
                \<or> (\<exists>c. fs g = Some (File c) \<and> pieces_of g ps = texts (css_tokens [] c))))"
proof -
  have "inlineCSS cwd fs n p (seen, warns) \<noteq> None"
    by (rule inline_terminates(1)) (use assms in simp_all)
  then obtain r where r: "inlineCSS cwd fs n p (seen, warns) = Some r" by blast
  have mono: "\<forall>m\<ge>n. inlineCSS cwd fs m p (seen, warns) = Some r"
    using inline_fuel_mono(1) [OF r] by blast
  have seen: "r = Inr ([], seen, warns)" if "p \<in> set seen"
  proof -
    from assms(2) obtain k where k: "n = Suc k" by (cases n) auto
    from that have "inlineCSS cwd fs (Suc k) p (seen, warns) = Some (Inr ([], seen, warns))"
      by simp
    with r [unfolded k] show ?thesis by simp
  qed
  have inv: "distinct seen' \<and> prefix seen seen'
      \<and> (\<forall>g. pieces_of g ps = []
            \<or> (\<exists>c. fs g = Some (File c) \<and> pieces_of g ps = texts (css_tokens [] c)))"
    if "r = Inr (ps, seen', warns')" and d: "distinct seen" for ps seen' warns'
  proof -
    from r that(1) have run: "inlineCSS cwd fs n p (seen, warns) = Some (Inr (ps, seen', warns'))"
      by simp
    from d have "distinct (fst (seen, warns))" by simp
    note i = inline_invariants(1) [OF run this, unfolded fst_conv]
    from i have d': "distinct seen'"
      and own: "fst ` set ps \<subseteq> set seen' - set seen"
      and once: "\<forall>g\<in>set seen' - set seen.
        \<exists>c. fs g = Some (File c) \<and> pieces_of g ps = texts (css_tokens [] c)"
      by simp_all
    from inline_seen_grows(1) [OF run] have pre: "prefix seen seen'" by simp
    have "pieces_of g ps = []
        \<or> (\<exists>c. fs g = Some (File c) \<and> pieces_of g ps = texts (css_tokens [] c))" for g
    proof (cases "g \<in> set seen' - set seen")
      case True
      with once show ?thesis by blast
    next
      case False
      with own have "g \<notin> fst ` set ps" by blast
      then show ?thesis by (simp add: pieces_of_empty)
    qed
    with d' pre show ?thesis by simp
  qed
  show ?thesis
  proof (rule exI [of _ r], intro conjI)
    show "inlineCSS cwd fs n p (seen, warns) = Some r" by (rule r)
    show "\<forall>m\<ge>n. inlineCSS cwd fs m p (seen, warns) = Some r" by (rule mono)
    show "p \<in> set seen \<longrightarrow> r = Inr ([], seen, warns)" using seen by simp
    show "\<forall>ps seen' warns'. r = Inr (ps, seen', warns') \<and> distinct seen \<longrightarrow>
          distinct seen' \<and> prefix seen seen'
          \<and> (\<forall>g. pieces_of g ps = []
                \<or> (\<exists>c. fs g = Some (File c) \<and> pieces_of g ps = texts (css_tokens [] c)))"
      using inv by simp
  qed
qed


theorem inlineCSS_terminates_witness:
  "finite (dom fs_cycle) \<and> card (dom fs_cycle - set []) < 3
   \<and> inlineCSS ''/'' fs_cycle 3 ''/src/css/a.css'' ([], [])
       = Some (Inr ([(''/src/css/a.css'', ''a1{}''), (''/src/css/b.css'', ''b1{}''),
                     (''/src/css/b.css'', ''b2{}''), (''/src/css/a.css'', ''a2{}'')],
                    [''/src/css/a.css'', ''/src/css/b.css''], []))
   \<and> inlineCSS ''/'' fs_cycle 7 ''/src/css/a.css'' ([], [])
       = inlineCSS ''/'' fs_cycle 3 ''/src/css/a.css'' ([], [])"
proof -
  have f: "finite (dom fs_cycle)" by (simp add: fs_cycle_def)
  have "dom fs_cycle = {''/src/css/a.css'', ''/src/css/b.css''}"
    by (auto simp: fs_cycle_def split: if_splits)
  then have c: "card (dom fs_cycle - set []) < 3" by simp
  have r: "inlineCSS ''/'' fs_cycle 3 ''/src/css/a.css'' ([], [])
      = Some (Inr ([(''/src/css/a.css'', ''a1{}''), (''/src/css/b.css'', ''b1{}''),
                    (''/src/css/b.css'', ''b2{}''), (''/src/css/a.css'', ''a2{}'')],
                   [''/src/css/a.css'', ''/src/css/b.css''], []))"
    by code_simp
  from inlineCSS_terminates [OF f c, of "''/''" "''/src/css/a.css''" "[]"] obtain x where
    x: "inlineCSS ''/'' fs_cycle 3 ''/src/css/a.css'' ([], []) = Some x"
    "\<forall>m\<ge>3. inlineCSS ''/'' fs_cycle m ''/src/css/a.css'' ([], []) = Some x"
    by blast
  then have "inlineCSS ''/'' fs_cycle 7 ''/src/css/a.css'' ([], [])
      = inlineCSS ''/'' fs_cycle 3 ''/src/css/a.css'' ([], [])"
    by simp
  with f c r show ?thesis by blast
qed




section \<open>Properties of the injection\<close>

subsection \<open>Replacing a marker of a well-formed template\<close>

lemma get_substitution_plain:
  "pattern_free v \<Longrightarrow> get_substitution matched preceding following v = v"
  by (induction matched preceding following v rule: get_substitution.induct) auto

lemma js_replace_plain:
  "pattern_free v \<Longrightarrow>
   js_replace s pat v
     = (case index_of pat s of None \<Rightarrow> s | Some i \<Rightarrow> take i s @ v @ drop (i + length pat) s)"
  by (simp add: js_replace_def get_substitution_plain split: option.splits)

lemma index_of_skip:
  "c \<notin> set s \<Longrightarrow>
   index_of (c # pat) (s @ rest) = map_option (\<lambda>i. length s + i) (index_of (c # pat) rest)"
proof (induction s)
  case Nil
  show ?case by (cases "index_of (c # pat) rest") simp_all
next
  case (Cons a s)
  then show ?case by (cases "index_of (c # pat) rest") simp_all
qed

lemma brace_ok_tl: "brace_ok (c # s) \<Longrightarrow> brace_ok s"
  by (cases s) simp_all

lemma brace_ok_no_marker: "brace_ok (c # s) \<Longrightarrow> \<not> prefix (marker m) (c # s @ rest)"
  by (cases s) (auto simp: marker_def)

lemma index_of_skip_text:
  "brace_ok s \<Longrightarrow>
   index_of (marker m) (s @ rest) = map_option (\<lambda>i. length s + i) (index_of (marker m) rest)"
proof (induction s)
  case Nil
  show ?case by (cases "index_of (marker m) rest") simp_all
next
  case (Cons c s)
  from Cons.prems have n: "\<not> prefix (marker m) (c # s @ rest)"
    by (rule brace_ok_no_marker)
  from Cons.prems have "brace_ok s" by (rule brace_ok_tl)
  then have ih: "index_of (marker m) (s @ rest)
      = map_option (\<lambda>i. length s + i) (index_of (marker m) rest)"
    by (rule Cons.IH)
  have "index_of (marker m) ((c # s) @ rest) = map_option Suc (index_of (marker m) (s @ rest))"
    using n by simp
  then show ?case
    unfolding ih by (cases "index_of (marker m) rest") simp_all
qed

lemma marker_prefix_same:
  "name_ok m \<Longrightarrow> name_ok k \<Longrightarrow> prefix (m @ ''}}'') (k @ ''}}'' @ rest) \<Longrightarrow> m = k"
proof (induction m arbitrary: k)
  case Nil
  then show ?case by (cases k) (auto simp: name_ok_def)
next
  case (Cons c m)
  show ?case
  proof (cases k)
    case Nil
    with Cons.prems show ?thesis by (auto simp: name_ok_def)
  next
    case (Cons d k')
    with Cons.prems have "c = d" "prefix (m @ ''}}'') (k' @ ''}}'' @ rest)"
      "name_ok m" "name_ok k'"
      by (auto simp: name_ok_def)
    with Cons.IH Cons show ?thesis by blast
  qed
qed

lemma name_hd: "name_ok k \<Longrightarrow> \<not> prefix ''{'' (k @ ''}}'' @ rest)"
  by (cases k) (auto simp: name_ok_def)

lemma index_of_other_marker:
  assumes "name_ok m" "name_ok k" "k \<noteq> m"
  shows "index_of (marker m) (marker k @ rest)
    = map_option (\<lambda>i. length (marker k) + i) (index_of (marker m) rest)"
proof -
  have 0: "\<not> prefix (marker m) (marker k @ rest)"
    using marker_prefix_same [OF assms(1,2), of rest] assms(3) by (auto simp: marker_def)
  have "\<not> prefix (CHR ''{'' # m @ ''}}'') (k @ ''}}'' @ rest)"
  proof
    assume "prefix (CHR ''{'' # m @ ''}}'') (k @ ''}}'' @ rest)"
    then have "prefix (''{'' @ (m @ ''}}'')) (k @ ''}}'' @ rest)" by simp
    then have "prefix ''{'' (k @ ''}}'' @ rest)" by (rule append_prefixD)
    with name_hd [OF assms(2)] show False by blast
  qed
  then have 1: "\<not> prefix (marker m) (CHR ''{'' # k @ ''}}'' @ rest)"
    by (simp add: marker_def)
  have "CHR ''{'' \<notin> set (k @ ''}}'')" using assms(2) by (simp add: name_ok_def)
  from index_of_skip [OF this, of "CHR ''{'' # m @ ''}}''" rest]
  have 2: "index_of (marker m) (k @ ''}}'' @ rest)
      = map_option (\<lambda>i. length (k @ ''}}'') + i) (index_of (marker m) rest)"
    by (simp add: marker_def)
  have "index_of (marker m) (marker k @ rest)
      = map_option Suc (map_option Suc (index_of (marker m) (k @ ''}}'' @ rest)))"
    using 0 1 by (simp add: marker_def)
  then show ?thesis
    unfolding 2 by (simp add: option.map_comp comp_def marker_def)
qed

lemma index_of_same_marker: "index_of (marker m) (marker m @ rest) = Some 0"
  by (simp add: marker_def)

lemma replace_render_first:
  "template_ok cs \<Longrightarrow> name_ok m \<Longrightarrow> pattern_free v \<Longrightarrow>
   js_replace (render cs) (marker m) v = render (fill_first m v cs)"
proof (induction cs)
  case Nil
  then show ?case by (simp add: js_replace_plain marker_def)
next
  case (Cons c cs)
  show ?case
  proof (cases c)
    case (Lit s)
    with Cons.prems have s: "brace_ok s" and ok: "template_ok cs" by simp_all
    note i = index_of_skip_text [OF s, of m "render cs"]
    from Cons.IH [OF ok Cons.prems(2,3)] show ?thesis
      by (simp add: Lit js_replace_plain Cons.prems(3) i split: option.splits)
  next
    case (Mark k)
    with Cons.prems have k: "name_ok k" and ok: "template_ok cs" by simp_all
    show ?thesis
    proof (cases "k = m")
      case True
      then show ?thesis
        by (simp add: Mark js_replace_plain Cons.prems(3) index_of_same_marker)
    next
      case False
      from Cons.IH [OF ok Cons.prems(2,3)] show ?thesis
        by (simp add: Mark False js_replace_plain Cons.prems(3)
            index_of_other_marker [OF Cons.prems(2) k False] split: option.splits)
    qed
  qed
qed


lemma template_ok_fill_first:
  "template_ok cs \<Longrightarrow> brace_ok v \<Longrightarrow> template_ok (fill_first m v cs)"
  by (induction m v cs rule: fill_first.induct) auto

lemma fill_Nil: "fill m [] cs = cs"
  by (induction m "[] :: string list" cs rule: fill.induct) auto

lemma fill_Cons: "fill m (v # vs) cs = fill m vs (fill_first m v cs)"
  by (induction m v cs rule: fill_first.induct) (auto simp: fill_Nil split: list.splits)

lemma fill_first_commute:
  "m \<noteq> k \<Longrightarrow> fill_first m v (fill_first k w cs) = fill_first k w (fill_first m v cs)"
  by (induction k w cs rule: fill_first.induct) auto

lemma fill_first_fill:
  "m \<noteq> k \<Longrightarrow> fill_first k w (fill m vs cs) = fill m vs (fill_first k w cs)"
proof (induction vs arbitrary: cs)
  case Nil
  show ?case by (simp add: fill_Nil)
next
  case (Cons v vs)
  then show ?case by (simp add: fill_Cons fill_first_commute [of m k])
qed

text \<open>A loop that replaces one marker per list entry.\<close>

lemma foldl_replace_one:
  assumes "name_ok m"
  shows "template_ok cs \<Longrightarrow> \<forall>v\<in>set vs. value_ok v \<Longrightarrow>
    foldl (\<lambda>h v. js_replace h (marker m) v) (render cs) vs = render (fill m vs cs)"
proof (induction vs arbitrary: cs)
  case Nil
  show ?case by (simp add: fill_Nil)
next
  case (Cons v vs)
  from Cons.prems(2) have v: "brace_ok v" "pattern_free v" and vs: "\<forall>v\<in>set vs. value_ok v"
    by (simp_all add: value_ok_def)
  from Cons.prems(1) v(1) have ok: "template_ok (fill_first m v cs)"
    by (rule template_ok_fill_first)
  from Cons.IH [OF ok vs] show ?case
    by (simp add: replace_render_first [OF Cons.prems(1) assms v(2)] fill_Cons)
qed

text \<open>A loop that replaces two markers per list entry.\<close>

lemma foldl_replace_two:
  assumes "name_ok m" "name_ok k" "m \<noteq> k"
  shows "template_ok cs \<Longrightarrow> \<forall>x\<in>set xs. value_ok (a x) \<and> value_ok (b x) \<Longrightarrow>
    foldl (\<lambda>h x. js_replace (js_replace h (marker m) (a x)) (marker k) (b x)) (render cs) xs
      = render (fill k (map b xs) (fill m (map a xs) cs))"
proof (induction xs arbitrary: cs)
  case Nil
  show ?case by (simp add: fill_Nil)
next
  case (Cons x xs)
  from Cons.prems(2) have a: "brace_ok (a x)" "pattern_free (a x)"
    and b: "brace_ok (b x)" "pattern_free (b x)"
    and xs: "\<forall>x\<in>set xs. value_ok (a x) \<and> value_ok (b x)"
    by (simp_all add: value_ok_def)
  from Cons.prems(1) a(1) have ok1: "template_ok (fill_first m (a x) cs)"
    by (rule template_ok_fill_first)
  from ok1 b(1) have ok2: "template_ok (fill_first k (b x) (fill_first m (a x) cs))"
    by (rule template_ok_fill_first)
  have step: "js_replace (js_replace (render cs) (marker m) (a x)) (marker k) (b x)
      = render (fill_first k (b x) (fill_first m (a x) cs))"
    by (simp add: replace_render_first [OF Cons.prems(1) assms(1) a(2)]
        replace_render_first [OF ok1 assms(2) b(2)])
  have "fill k (map b (x # xs)) (fill m (map a (x # xs)) cs)
      = fill k (map b xs) (fill m (map a xs) (fill_first k (b x) (fill_first m (a x) cs)))"
    by (simp add: fill_Cons fill_first_fill [OF assms(3)])
  with Cons.IH [OF ok2 xs] step show ?case by simp
qed

text \<open>The global replacement of a marker.\<close>

lemma replace_all_skip:
  "c \<notin> set s \<Longrightarrow>
   replace_all_from (c # pat) rep passed (s @ rest)
     = s @ replace_all_from (c # pat) rep (passed @ s) rest"
  by (induction s arbitrary: passed) auto

lemma replace_all_skip_text:
  "brace_ok s \<Longrightarrow>
   replace_all_from (marker m) rep passed (s @ rest)
     = s @ replace_all_from (marker m) rep (passed @ s) rest"
proof (induction s arbitrary: passed)
  case Nil
  show ?case by simp
next
  case (Cons c s)
  from Cons.prems have n: "\<not> prefix (marker m) (c # s @ rest)"
    by (rule brace_ok_no_marker)
  from Cons.prems have "brace_ok s" by (rule brace_ok_tl)
  then have ih: "replace_all_from (marker m) rep (passed @ [c]) (s @ rest)
      = s @ replace_all_from (marker m) rep ((passed @ [c]) @ s) rest"
    by (rule Cons.IH)
  show ?case
    unfolding append_Cons replace_all_from_nomatch [OF n] ih by simp
qed

lemma replace_all_render:
  "template_ok cs \<Longrightarrow> name_ok m \<Longrightarrow> pattern_free v \<Longrightarrow>
   replace_all_from (marker m) v passed (render cs) = render (fill_all m v cs)"
proof (induction cs arbitrary: passed)
  case Nil
  show ?case by simp
next
  case (Cons c cs)
  show ?case
  proof (cases c)
    case (Lit s)
    with Cons.prems have s: "brace_ok s" and ok: "template_ok cs" by simp_all
    from replace_all_skip_text [OF s, of m v passed "render cs"]
      Cons.IH [OF ok Cons.prems(2,3)]
    show ?thesis by (simp add: Lit del: replace_all_from.simps)
  next
    case (Mark k)
    with Cons.prems have k: "name_ok k" and ok: "template_ok cs" by simp_all
    show ?thesis
    proof (cases "k = m")
      case True
      have "marker m \<noteq> []" by (simp add: marker_def)
      from replace_all_from_match [OF this, of v passed "render cs"]
        Cons.IH [OF ok Cons.prems(2,3)]
      show ?thesis by (simp add: Mark True get_substitution_plain Cons.prems(3))
    next
      case False
      have 0: "\<not> prefix (marker m) (marker k @ render cs)"
        using marker_prefix_same [OF Cons.prems(2) k, of "render cs"] False
        by (auto simp: marker_def)
      have "\<not> prefix (CHR ''{'' # m @ ''}}'') (k @ ''}}'' @ render cs)"
      proof
        assume "prefix (CHR ''{'' # m @ ''}}'') (k @ ''}}'' @ render cs)"
        then have "prefix (''{'' @ (m @ ''}}'')) (k @ ''}}'' @ render cs)" by simp
        then have "prefix ''{'' (k @ ''}}'' @ render cs)" by (rule append_prefixD)
        with name_hd [OF k] show False by blast
      qed
      then have 1: "\<not> prefix (marker m) (CHR ''{'' # k @ ''}}'' @ render cs)"
        by (simp add: marker_def)
      have "CHR ''{'' \<notin> set (k @ ''}}'')" using k by (simp add: name_ok_def)
      from replace_all_skip [OF this, of "CHR ''{'' # m @ ''}}''" v _ "render cs"]
      have 2: "replace_all_from (marker m) v p (k @ ''}}'' @ render cs)
          = k @ ''}}'' @ replace_all_from (marker m) v (p @ k @ ''}}'') (render cs)" for p
        by (simp add: marker_def)
      have 3: "replace_all_from (marker m) v passed (marker k @ render cs)
          = CHR ''{'' # CHR ''{'' # replace_all_from (marker m) v (passed @ ''{{'') (k @ ''}}'' @ render cs)"
        using replace_all_from_nomatch [OF 0 [unfolded marker_def [of k], simplified]]
          replace_all_from_nomatch [OF 1]
        by (simp add: marker_def [of k])
      have "replace_all_from (marker m) v passed (render (c # cs))
          = replace_all_from (marker m) v passed (marker k @ render cs)"
        by (simp add: Mark del: replace_all_from.simps)
      also have "\<dots> = CHR ''{'' # CHR ''{''
          # replace_all_from (marker m) v (passed @ ''{{'') (k @ ''}}'' @ render cs)"
        by (rule 3)
      also have "\<dots> = CHR ''{'' # CHR ''{'' # k @ ''}}''
          @ replace_all_from (marker m) v ((passed @ ''{{'') @ k @ ''}}'') (render cs)"
        by (simp only: 2)
      also have "\<dots> = marker k @ render (fill_all m v cs)"
        by (simp add: Cons.IH [OF ok Cons.prems(2,3)] marker_def [of k] del: replace_all_from.simps)
      also have "\<dots> = render (fill_all m v (c # cs))"
        by (simp add: Mark False)
      finally show ?thesis .
    qed
  qed
qed

lemma marks_fill: "marks m (fill m vs cs) = marks m cs - length vs"
  by (induction m vs cs rule: fill.induct) (auto split: list.splits)

lemma fill_take: "fill m (take (marks m cs) vs) cs = fill m vs cs"
  by (induction m vs cs rule: fill.induct) (auto split: list.splits)

lemma marks_fill_other: "m \<noteq> k \<Longrightarrow> marks k (fill m vs cs) = marks k cs"
  by (induction m vs cs rule: fill.induct) (auto split: list.splits)

lemma marks_fill_all: "marks k (fill_all m v cs) = (if k = m then 0 else marks k cs)"
  by (induction m v cs rule: fill_all.induct) auto

lemma template_ok_fill:
  "template_ok cs \<Longrightarrow> \<forall>v\<in>set vs. brace_ok v \<Longrightarrow> template_ok (fill m vs cs)"
  by (induction m vs cs rule: fill.induct) (auto split: list.splits)

lemma template_ok_fill_all:
  "template_ok cs \<Longrightarrow> brace_ok v \<Longrightarrow> template_ok (fill_all m v cs)"
  by (induction m v cs rule: fill_all.induct) auto

lemma includes_render:
  "template_ok cs \<Longrightarrow> name_ok m \<Longrightarrow> includes_str (render cs) (marker m) = (0 < marks m cs)"
proof (induction cs)
  case Nil
  show ?case by (simp add: includes_str_def marker_def)
next
  case (Cons c cs)
  show ?case
  proof (cases c)
    case (Lit s)
    with Cons.prems have s: "brace_ok s" and ok: "template_ok cs" by simp_all
    from index_of_skip_text [OF s, of m "render cs"] Cons.IH [OF ok Cons.prems(2)]
    show ?thesis
      by (simp add: Lit includes_str_def)
  next
    case (Mark k)
    with Cons.prems have k: "name_ok k" and ok: "template_ok cs" by simp_all
    show ?thesis
    proof (cases "k = m")
      case True
      then show ?thesis by (simp add: Mark includes_str_def index_of_same_marker)
    next
      case False
      from Cons.IH [OF ok Cons.prems(2)] show ?thesis
        by (simp add: Mark False includes_str_def index_of_other_marker [OF Cons.prems(2) k False])
    qed
  qed
qed

lemma inject_nav_item_markers:
  "inject_nav_item
     = (\<lambda>h x. js_replace (js_replace h (marker ''LABEL'') (label x)) (marker ''DESTINATION'') (link x))"
  by (intro ext) (simp add: inject_nav_item_def marker_def)

lemma inject_amount_marker: "inject_amount = (\<lambda>h v. js_replace h (marker ''AMOUNT'') v)"
  by (intro ext) (simp add: inject_amount_def marker_def)

lemma headerHTML_inject:
  "headerHTML (injectDynamicContent c p) = foldl inject_nav_item (headerHTML p) (header_nav c)"
  by (simp add: injectDynamicContent_def Let_def)

lemma invoices_inject:
  "invoices (injectDynamicContent c p)
     = foldl inject_amount (js_replace_all (invoices p) ''{{LABEL}}'' (invoices_label c))
         (invoices_amounts c)"
  by (simp add: injectDynamicContent_def Let_def)

lemma heroSection_inject:
  "heroSection (injectDynamicContent c p)
     = js_replace
         (js_replace
            (js_replace (js_replace (heroSection p) ''{{TITLE}}'' (hero_title c))
               ''{{DESCRIPTION}}'' (hero_description c))
            ''{{CTA}}'' (hero_cta c))
         ''<!-- INVOICES -->'' (invoices (injectDynamicContent c p))"
  by (simp add: injectDynamicContent_def Let_def)

subsection \<open>Literal substitution\<close>







subsection \<open>Lists of values against repeated markers\<close>

text \<open>
  C2, as the claim states it, fails: one amount \<open>$&\<close> against a partial with one
  \<open>{{AMOUNT}}\<close> marker leaves the marker in the result, although the number of markers
  equals the length of the list. The replacement text of \<open>replace\<close> is a pattern in which
  \<open>$&\<close> stands for the matched text, so the marker is replaced by itself.
\<close>

theorem dollar_amount_leaves_marker:
  "invoices
     (injectDynamicContent (empty_copy\<lparr>invoices_amounts := [''$&'']\<rparr>)
        (empty_partials\<lparr>invoices := ''<li>{{AMOUNT}}</li>''\<rparr>))
     = ''<li>{{AMOUNT}}</li>''"
  by code_simp

text \<open>
  An entry that holds the text of a marker is a second way to leave a marker behind: the
  next entry of the list goes into the marker that the entry brought, not into the next
  marker of the partial.
\<close>

lemma marker_in_amount_takes_next_amount:
  "invoices
     (injectDynamicContent (empty_copy\<lparr>invoices_amounts := [''{{AMOUNT}}'', ''5'']\<rparr>)
        (empty_partials\<lparr>invoices := ''<li>{{AMOUNT}}</li><li>{{AMOUNT}}</li>''\<rparr>))
     = ''<li>5</li><li>{{AMOUNT}}</li>''"
  by code_simp

text \<open>
  C2, amended: for a header partial and an invoice partial that are well-formed templates,
  and list entries (labels, links, amounts) and an invoice label that hold none of the
  patterns \<open>$$\<close>, \<open>$&\<close>, \<open>$`\<close>, \<open>$'\<close>, no \<open>{{\<close> and no \<open>{\<close> at their end, injection puts the
  entries, in list order, in place of the successive markers of their name: the header is
  the template with the labels filled into the successive \<open>{{LABEL}}\<close> markers and the links
  into the successive \<open>{{DESTINATION}}\<close> markers, the invoice partial is the template with the
  label in every \<open>{{LABEL}}\<close> marker and the amounts in the successive \<open>{{AMOUNT}}\<close> markers. A
  marker of the list remains in the result exactly when the list is shorter than the number
  of its markers; the entries beyond the number of markers are dropped (filling a list is
  filling its first \<open>marks\<close> entries), and filling removes as many markers as the list has
  entries, as far as there are markers.
\<close>

theorem list_injection_in_order:
  assumes "headerHTML p = render hs" and "template_ok hs"
    and "list_all (\<lambda>i. value_ok (label i) \<and> value_ok (link i)) (header_nav c)"
    and "invoices p = render vs" and "template_ok vs"
    and "value_ok (invoices_label c)" and "list_all value_ok (invoices_amounts c)"
  shows "headerHTML (injectDynamicContent c p)
      = render (fill ''DESTINATION'' (map link (header_nav c))
          (fill ''LABEL'' (map label (header_nav c)) hs))
    \<and> invoices (injectDynamicContent c p)
      = render (fill ''AMOUNT'' (invoices_amounts c) (fill_all ''LABEL'' (invoices_label c) vs))
    \<and> includes_str (headerHTML (injectDynamicContent c p)) ''{{LABEL}}''
      = (length (header_nav c) < marks ''LABEL'' hs)
    \<and> includes_str (headerHTML (injectDynamicContent c p)) ''{{DESTINATION}}''
      = (length (header_nav c) < marks ''DESTINATION'' hs)
    \<and> includes_str (invoices (injectDynamicContent c p)) ''{{AMOUNT}}''
      = (length (invoices_amounts c) < marks ''AMOUNT'' vs)
    \<and> (\<forall>m xs cs. fill m xs cs = fill m (take (marks m cs) xs) cs)
    \<and> (\<forall>m xs cs. marks m (fill m xs cs) = marks m cs - length xs)"
proof -
  have nL: "name_ok ''LABEL''" and nD: "name_ok ''DESTINATION''" and nA: "name_ok ''AMOUNT''"
    by (simp_all add: name_ok_def)
  from assms(3) have nav: "\<forall>i\<in>set (header_nav c). value_ok (label i) \<and> value_ok (link i)"
    by (simp add: list_all_iff)
  from assms(7) have am: "\<forall>a\<in>set (invoices_amounts c). value_ok a"
    by (simp add: list_all_iff)
  from assms(6) have lb: "brace_ok (invoices_label c)" "pattern_free (invoices_label c)"
    by (simp_all add: value_ok_def)
  let ?h = "fill ''DESTINATION'' (map link (header_nav c)) (fill ''LABEL'' (map label (header_nav c)) hs)"
  let ?v = "fill ''AMOUNT'' (invoices_amounts c) (fill_all ''LABEL'' (invoices_label c) vs)"
  have h: "headerHTML (injectDynamicContent c p) = render ?h"
    unfolding headerHTML_inject inject_nav_item_markers assms(1)
    by (rule foldl_replace_two [OF nL nD _ assms(2) nav]) simp
  have va: "js_replace_all (render vs) ''{{LABEL}}'' (invoices_label c)
      = render (fill_all ''LABEL'' (invoices_label c) vs)"
    using replace_all_render [OF assms(5) nL lb(2), of "[]"]
    by (simp add: js_replace_all_def marker_def)
  have okv: "template_ok (fill_all ''LABEL'' (invoices_label c) vs)"
    using assms(5) lb(1) by (rule template_ok_fill_all)
  have v: "invoices (injectDynamicContent c p) = render ?v"
    unfolding invoices_inject inject_amount_marker assms(4) va
    by (rule foldl_replace_one [OF nA okv am])
  have okh1: "template_ok (fill ''LABEL'' (map label (header_nav c)) hs)"
    by (rule template_ok_fill [OF assms(2)]) (use nav in \<open>auto simp: value_ok_def\<close>)
  have okh: "template_ok ?h"
    by (rule template_ok_fill [OF okh1]) (use nav in \<open>auto simp: value_ok_def\<close>)
  have okv2: "template_ok ?v"
    by (rule template_ok_fill [OF okv]) (use am in \<open>auto simp: value_ok_def\<close>)
  have iL: "includes_str (render ?h) ''{{LABEL}}'' = (length (header_nav c) < marks ''LABEL'' hs)"
    using includes_render [OF okh nL]
    by (simp add: marker_def marks_fill marks_fill_other)
  have iD: "includes_str (render ?h) ''{{DESTINATION}}''
      = (length (header_nav c) < marks ''DESTINATION'' hs)"
    using includes_render [OF okh nD]
    by (simp add: marker_def marks_fill marks_fill_other)
  have iA: "includes_str (render ?v) ''{{AMOUNT}}''
      = (length (invoices_amounts c) < marks ''AMOUNT'' vs)"
    using includes_render [OF okv2 nA]
    by (simp add: marker_def marks_fill marks_fill_all)
  have t: "\<forall>m xs cs. fill m xs cs = fill m (take (marks m cs) xs) cs"
    by (simp add: fill_take)
  have l: "\<forall>m xs cs. marks m (fill m xs cs) = marks m cs - length xs"
    using marks_fill by blast
  show ?thesis
    unfolding h v by (intro conjI refl iL iD iA t l)
qed

theorem list_injection_in_order_witness:
  "headerHTML (injectDynamicContent demo_copy demo_partials)
     = ''<style>a{b:c}</style><a href=/>Home</a><a href=/about>About</a>''
   \<and> invoices (injectDynamicContent demo_copy demo_partials)
     = ''<h2>Invoices</h2><li>$1,250.00</li><li>20</li><li>{{AMOUNT}}</li>''
   \<and> includes_str (invoices (injectDynamicContent demo_copy demo_partials)) ''{{AMOUNT}}''
   \<and> \<not> includes_str (headerHTML (injectDynamicContent demo_copy demo_partials)) ''{{LABEL}}''"
proof -
  have h: "headerHTML demo_partials = render demo_header"
    by (simp add: demo_partials_def)
  have v: "invoices demo_partials = render demo_invoices"
    by (simp add: demo_partials_def)
  have oh: "template_ok demo_header"
    by code_simp
  have ov: "template_ok demo_invoices"
    by code_simp
  have n: "list_all (\<lambda>i. value_ok (label i) \<and> value_ok (link i)) (header_nav demo_copy)"
    by code_simp
  have l: "value_ok (invoices_label demo_copy)"
    by code_simp
  have a: "list_all value_ok (invoices_amounts demo_copy)"
    by code_simp
  have e1: "render (fill ''DESTINATION'' (map link (header_nav demo_copy))
          (fill ''LABEL'' (map label (header_nav demo_copy)) demo_header))
      = ''<style>a{b:c}</style><a href=/>Home</a><a href=/about>About</a>''"
    by code_simp
  have e2: "render (fill ''AMOUNT'' (invoices_amounts demo_copy)
          (fill_all ''LABEL'' (invoices_label demo_copy) demo_invoices))
      = ''<h2>Invoices</h2><li>$1,250.00</li><li>20</li><li>{{AMOUNT}}</li>''"
    by code_simp
  have m1: "length (invoices_amounts demo_copy) < marks ''AMOUNT'' demo_invoices"
    by code_simp
  have m2: "\<not> length (header_nav demo_copy) < marks ''LABEL'' demo_header"
    by code_simp
  note r = list_injection_in_order [OF h oh n v ov l a]
  from r have c1: "headerHTML (injectDynamicContent demo_copy demo_partials)
      = ''<style>a{b:c}</style><a href=/>Home</a><a href=/about>About</a>''"
    unfolding e1 by (rule conjunct1)
  from r have c2: "invoices (injectDynamicContent demo_copy demo_partials)
      = ''<h2>Invoices</h2><li>$1,250.00</li><li>20</li><li>{{AMOUNT}}</li>''"
    unfolding e2 by blast
  from r m1 have c3: "includes_str (invoices (injectDynamicContent demo_copy demo_partials)) ''{{AMOUNT}}''"
    by blast
  from r m2 have c4: "\<not> includes_str (headerHTML (injectDynamicContent demo_copy demo_partials)) ''{{LABEL}}''"
    by blast
  from c1 c2 c3 c4 show ?thesis
    by (intro conjI)
qed

subsection \<open>Values are inserted as they are\<close>




section \<open>The warnings of the link validator\<close>


















text \<open>
  The pattern wants the quote directly after \<open>href=\<close>, and it does not look at what stands
  before \<open>href\<close>.
\<close>

lemma spaced_attribute_not_scanned:
  "scan_links (''<a href = '' @ [CHR 0x22] @ ''x.html'' @ [CHR 0x22] @ ''>'') = []"
  by code_simp

lemma longer_name_scanned:
  "scan_links (''<a data-'' @ attribute ''href'' ''x.html'' @ ''>'') = [''x.html'']"
  by code_simp

text \<open>
  The loop over the links of a page leaves the callback of the page at the first link that
  begins with \<open>http\<close> or \<open>//\<close>: a missing page that is linked after it is not reported.
\<close>

lemma link_after_external_not_checked:
  "validateLinks ''/public''
     (map_of [(''/public/index.html'',
               File (''<a '' @ attribute ''href'' ''https://example.com'' @ ''>''
                     @ ''<a '' @ attribute ''href'' ''/missing.html'' @ ''>''))])
     [''index.html'']
   = Inr [AllLinksValid]"
  by code_simp




end
